theory Spec2Isabelle
  imports Complex_Main "HOL-Library.FSet"
begin

section \<open>Python strings\<close>

text \<open>
  A Python \<open>str\<close> is a sequence of Unicode code points, so a string is a list of
  natural numbers, one per code point; \<open>length\<close> and slicing count code points as
  Python does. \<open>ustr\<close> writes an ASCII literal as such a list.
\<close>

type_synonym pystr = "nat list"

definition ustr :: "string \<Rightarrow> pystr" where
  "ustr s = map of_char s"

text \<open>
  \<open>str.isspace\<close> on one code point, which is also what \<open>\s\<close> matches in a
  \<open>str\<close> pattern and what \<open>str.strip()\<close> and \<open>str.split()\<close> treat as
  white space: U+0009..U+000D, U+001C..U+0020, U+0085, U+00A0, U+1680, U+2000..U+200A,
  U+2028, U+2029, U+202F, U+205F, U+3000.
\<close>

definition isspace :: "nat \<Rightarrow> bool" where
  "isspace c \<longleftrightarrow>
     (9 \<le> c \<and> c \<le> 13) \<or> (28 \<le> c \<and> c \<le> 32) \<or> c = 133 \<or> c = 160 \<or> c = 5760 \<or>
     (8192 \<le> c \<and> c \<le> 8202) \<or> c = 8232 \<or> c = 8233 \<or> c = 8239 \<or> c = 8287 \<or> c = 12288"

text \<open>\<open>s.strip()\<close>: leading and trailing white space removed.\<close>

definition strip :: "pystr \<Rightarrow> pystr" where
  "strip s = rev (dropWhile isspace (rev (dropWhile isspace s)))"

text \<open>\<open>s.strip(chars)\<close>: leading and trailing code points of \<open>chars\<close> removed.\<close>

definition strip_chars :: "pystr \<Rightarrow> pystr \<Rightarrow> pystr" where
  "strip_chars chars s =
     rev (dropWhile (\<lambda>c. c \<in> set chars) (rev (dropWhile (\<lambda>c. c \<in> set chars) s)))"

text \<open>\<open>s.startswith(p)\<close> and \<open>s.endswith(p)\<close>.\<close>

definition startswith :: "pystr \<Rightarrow> pystr \<Rightarrow> bool" where
  "startswith s p \<longleftrightarrow> take (length p) s = p"

definition endswith :: "pystr \<Rightarrow> pystr \<Rightarrow> bool" where
  "endswith s p \<longleftrightarrow> length p \<le> length s \<and> drop (length s - length p) s = p"

text \<open>
  \<open>s[:n]\<close>: the first \<open>n\<close> code points, and for a negative \<open>n\<close> all but the last
  \<open>-n\<close>.
\<close>

definition slice_to :: "int \<Rightarrow> pystr \<Rightarrow> pystr" where
  "slice_to n s = (if 0 \<le> n then take (nat n) s else take (length s - nat (- n)) s)"

text \<open>
  \<open>re.sub('[...]', r, s)\<close> for a character class: every code point of the class
  is replaced by \<open>r\<close>.
\<close>

fun sub_each :: "(nat \<Rightarrow> bool) \<Rightarrow> pystr \<Rightarrow> pystr \<Rightarrow> pystr" where
  "sub_each P r [] = []"
| "sub_each P r (c # cs) = (if P c then r @ sub_each P r cs else c # sub_each P r cs)"

text \<open>
  \<open>re.sub('X+', r, s)\<close> for a one-character pattern \<open>X\<close>: the matches are the
  maximal runs of code points that match \<open>X\<close>, found from left to right, and each run
  is replaced by \<open>r\<close>.
\<close>

function sub_runs :: "(nat \<Rightarrow> bool) \<Rightarrow> pystr \<Rightarrow> pystr \<Rightarrow> pystr" where
  "sub_runs P r [] = []"
| "sub_runs P r (c # cs) =
     (if P c then r @ sub_runs P r (dropWhile P cs) else c # sub_runs P r cs)"
  by pat_completeness auto
termination
  by (relation "measure (\<lambda>(P, r, s). length s)") (auto simp: le_imp_less_Suc length_dropWhile_le)

section \<open>FilenameManager\<close>

text \<open>
  The character class of the first substitution of \<open>sanitize_filename\<close>, by code
  point: less-than 60, greater-than 62, colon 58, double quote 34, slash 47, backslash 92,
  bar 124, question mark 63, asterisk 42.
\<close>

definition invalid_chars :: pystr where
  "invalid_chars = [60, 62, 58, 34, 47, 92, 124, 63, 42]"

definition is_dot :: "nat \<Rightarrow> bool" where
  "is_dot c \<longleftrightarrow> c = 46"

definition sanitize_filename :: "pystr \<Rightarrow> int \<Rightarrow> pystr" where
  "sanitize_filename title max_length =
     (let safe = sub_each (\<lambda>c. c \<in> set invalid_chars) [] title;
          safe = sub_runs isspace (ustr ''_'') safe;
          safe = sub_runs is_dot (ustr ''.'') safe;
          safe = slice_to max_length safe
      in strip_chars (ustr ''._'') safe)"

text \<open>The call with the default \<open>max_length = 240\<close>.\<close>

definition sanitize :: "pystr \<Rightarrow> pystr" where
  "sanitize title = sanitize_filename title 240"

section \<open>Numbers and tokens in strings\<close>

text \<open>
  \<open>str(n)\<close> for an integer \<open>n \<ge> 0\<close>: its decimal digits, most significant first.
\<close>

fun str_nat :: "nat \<Rightarrow> pystr" where
  "str_nat n = (if n < 10 then [48 + n] else str_nat (n div 10) @ [48 + n mod 10])"

declare str_nat.simps [simp del]

definition is_digit :: "nat \<Rightarrow> bool" where
  "is_digit c \<longleftrightarrow> 48 \<le> c \<and> c \<le> 57"

text \<open>The value of a string of digits, read from the left onto an accumulator.\<close>

fun digits_value :: "nat \<Rightarrow> pystr \<Rightarrow> nat" where
  "digits_value acc [] = acc"
| "digits_value acc (c # cs) = digits_value (acc * 10 + (c - 48)) cs"

text \<open>
  The digit part that \<open>int()\<close> accepts in base 10: one or more digits, where single
  underscores (code point 95) may stand between two digits.
\<close>

fun valid_digits :: "pystr \<Rightarrow> bool" where
  "valid_digits [] = False"
| "valid_digits [c] = is_digit c"
| "valid_digits (c # d # cs) =
     (is_digit c \<and> (if d = 95 then valid_digits cs else valid_digits (d # cs)))"

text \<open>
  The decimal digits of Unicode 14.0, the character database of Python 3.11: they come
  in blocks of ten code points, zero to nine, and \<open>decimal_starts\<close> lists the code point
  of the zero of each block (ASCII first). \<open>todecimal c\<close> is the value of the digit
  \<open>c\<close>, \<open>None\<close> when \<open>c\<close> is no decimal digit.
\<close>

definition decimal_starts :: "nat list" where
  "decimal_starts =
     [48, 1632, 1776, 1984, 2406, 2534, 2662, 2790, 2918, 3046, 3174, 3302, 3430, 3558,
      3664, 3792, 3872, 4160, 4240, 6112, 6160, 6470, 6608, 6784, 6800, 6992, 7088, 7232,
      7248, 42528, 43216, 43264, 43472, 43504, 43600, 44016, 65296, 66720, 68912, 69734,
      69872, 69942, 70096, 70384, 70736, 70864, 71248, 71360, 71472, 71904, 72016, 72784,
      73040, 73120, 92768, 92864, 93008, 120782, 120792, 120802, 120812, 120822, 123200,
      123632, 125264, 130032]"

definition todecimal :: "nat \<Rightarrow> nat option" where
  "todecimal c =
     (case filter (\<lambda>z. z \<le> c \<and> c < z + 10) decimal_starts of
        [] \<Rightarrow> None
      | z # zs \<Rightarrow> Some (c - z))"

text \<open>
  \<open>int(s)\<close> first brings the string to ASCII: a code point below 127 stays, any other
  white space becomes a space (32), any other decimal digit the ASCII digit of its
  value, and anything else a question mark (63), which no number contains.
\<close>

definition to_ascii :: "nat \<Rightarrow> nat" where
  "to_ascii c =
     (if c < 127 then c
      else if isspace c then 32
      else (case todecimal c of Some d \<Rightarrow> 48 + d | None \<Rightarrow> 63))"

text \<open>The white space that is skipped around the ASCII form: tab to carriage return, and space.\<close>

definition ascii_space :: "nat \<Rightarrow> bool" where
  "ascii_space c \<longleftrightarrow> (9 \<le> c \<and> c \<le> 13) \<or> c = 32"

text \<open>
  The default of \<open>sys.int_max_str_digits\<close> (Python 3.11 and later): \<open>int(s)\<close> raises
  \<open>ValueError\<close> when \<open>s\<close> has more digits.
\<close>

definition max_str_digits :: nat where
  "max_str_digits = 4300"

text \<open>
  \<open>int(s)\<close> for a string, in base 10: on the ASCII form, the white space around the
  number is skipped, one sign \<open>+\<close> (43) or \<open>-\<close> (45) may come first, then the digit
  part, which has at most \<open>max_str_digits\<close> digits. \<open>None\<close> is the \<open>ValueError\<close> of
  the source.
\<close>

definition py_int :: "pystr \<Rightarrow> int option" where
  "py_int s =
     (let t = rev (dropWhile ascii_space (rev (dropWhile ascii_space (map to_ascii s))));
          neg = (t \<noteq> [] \<and> hd t = 45);
          body = (if t \<noteq> [] \<and> (hd t = 45 \<or> hd t = 43) then tl t else t)
      in if valid_digits body \<and> length (filter is_digit body) \<le> max_str_digits
         then Some ((if neg then - 1 else 1) * int (digits_value 0 (filter is_digit body)))
         else None)"

text \<open>
  \<open>s.split()\<close>: the maximal runs of code points that are not white space, in
  order. \<open>split_acc cur s\<close> reads \<open>s\<close> with the token \<open>cur\<close> under way.
\<close>

fun split_acc :: "pystr \<Rightarrow> pystr \<Rightarrow> pystr list" where
  "split_acc cur [] = (if cur = [] then [] else [cur])"
| "split_acc cur (c # cs) =
     (if isspace c then (if cur = [] then split_acc [] cs else cur # split_acc [] cs)
      else split_acc (cur @ [c]) cs)"

definition py_split :: "pystr \<Rightarrow> pystr list" where
  "py_split s = split_acc [] s"

text \<open>
  \<open>s.rsplit('.', 1)\<close>: the string cut at its last dot (code point 46) into the part
  before and the part after it, or the string alone when it has no dot.
\<close>

definition rsplit_dot :: "pystr \<Rightarrow> pystr list" where
  "rsplit_dot s =
     (if 46 \<in> set s
      then (let ext = rev (takeWhile (\<lambda>c. c \<noteq> 46) (rev s))
            in [take (length s - length ext - 1) s, ext])
      else [s])"

section \<open>StyleProcessor\<close>

text \<open>
  A style of the document, as \<open>_process_styles\<close> reads it: its type, its name and
  the name of its base style, if it has one.
\<close>

datatype WD_STYLE_TYPE = CHARACTER | LIST | PARAGRAPH | TABLE

record style =
  style_type :: WD_STYLE_TYPE
  name :: pystr
  base_style :: "pystr option"

text \<open>
  \<open>int(n.split()[-1])\<close> under \<open>except (ValueError, IndexError)\<close>: the level a
  name ends in, \<open>None\<close> when either exception is raised.
\<close>

definition parse_level :: "pystr \<Rightarrow> int option" where
  "parse_level n = (case py_split n of [] \<Rightarrow> None | t # ts \<Rightarrow> py_int (last (t # ts)))"

text \<open>
  One round of the loop of \<open>_process_styles\<close> on the dictionary \<open>heading_levels\<close>.
  A name that starts with \<open>Heading \<close> takes the first branch, and the \<open>elif\<close> on the
  base style is read only for the other names.
\<close>

definition process_style :: "(pystr \<rightharpoonup> int) \<Rightarrow> style \<Rightarrow> (pystr \<rightharpoonup> int)" where
  "process_style heading_levels st =
     (if style_type st \<noteq> PARAGRAPH then heading_levels
      else if startswith (name st) (ustr ''Heading '') then
        (case parse_level (name st) of
           Some level \<Rightarrow> heading_levels(name st \<mapsto> level)
         | None \<Rightarrow> heading_levels)
      else
        (case base_style st of
           Some base_name \<Rightarrow>
             if startswith base_name (ustr ''Heading '') then
               (case parse_level base_name of
                  Some level \<Rightarrow> heading_levels(name st \<mapsto> level)
                | None \<Rightarrow> heading_levels)
             else heading_levels
         | None \<Rightarrow> heading_levels))"

definition process_styles :: "style list \<Rightarrow> (pystr \<rightharpoonup> int)" where
  "process_styles styles = foldl process_style Map.empty styles"

text \<open>
  Two styles for the examples: a paragraph style named \<open>Heading A\<close> and one named
  \<open>Custom\<close>, both based on \<open>Heading 2\<close>; and the built-in \<open>Heading 2\<close>.
\<close>

definition style_heading_A :: style where
  "style_heading_A =
     \<lparr>style_type = PARAGRAPH, name = ustr ''Heading A'', base_style = Some (ustr ''Heading 2'')\<rparr>"

definition style_custom :: style where
  "style_custom =
     \<lparr>style_type = PARAGRAPH, name = ustr ''Custom'', base_style = Some (ustr ''Heading 2'')\<rparr>"

definition style_heading_2 :: style where
  "style_heading_2 =
     \<lparr>style_type = PARAGRAPH, name = ustr ''Heading 2'', base_style = None\<rparr>"

section \<open>FilenameManager.ensure_unique\<close>

text \<open>
  The name the loop of \<open>ensure_unique\<close> tries for a value of \<open>counter\<close>:
  \<open>_counter\<close> goes before the extension, if the base name has one.
\<close>

definition numbered :: "pystr \<Rightarrow> nat \<Rightarrow> pystr" where
  "numbered base counter =
     (let name_parts = rsplit_dot base
      in if length name_parts > 1
         then name_parts ! 0 @ ustr ''_'' @ str_nat counter @ ustr ''.'' @ name_parts ! 1
         else base @ ustr ''_'' @ str_nat counter)"

text \<open>
  The \<open>while\<close> loop. Nothing in its text bounds the number of rounds, so it is a
  partial function: \<open>None\<close> stands for a loop that never ends.
\<close>

partial_function (option) ensure_unique_loop ::
  "pystr \<Rightarrow> pystr \<Rightarrow> nat \<Rightarrow> pystr fset \<Rightarrow> pystr option" where
  "ensure_unique_loop base filename counter used_names =
     (if filename |\<in>| used_names
      then ensure_unique_loop base (numbered base counter) (counter + 1) used_names
      else Some filename)"

declare ensure_unique_loop.simps [code]

text \<open>
  \<open>ensure_unique\<close> returns the name and, as the second component, the set
  \<open>used_names\<close> after the call (the source adds the name to the caller's set).
\<close>

definition ensure_unique :: "pystr \<Rightarrow> pystr fset \<Rightarrow> (pystr \<times> pystr fset) option" where
  "ensure_unique filename used_names =
     (case ensure_unique_loop filename filename 1 used_names of
        None \<Rightarrow> None
      | Some unique \<Rightarrow> Some (unique, finsert unique used_names))"

text \<open>
  \<open>n\<close> calls \<open>ensure_unique(filename, used_names)\<close> in a row on one set: the names
  returned, in order, and the set at the end.
\<close>

fun ensure_unique_calls ::
  "nat \<Rightarrow> pystr \<Rightarrow> pystr fset \<Rightarrow> (pystr list \<times> pystr fset) option" where
  "ensure_unique_calls 0 filename used_names = Some ([], used_names)"
| "ensure_unique_calls (Suc n) filename used_names =
     (case ensure_unique filename used_names of
        None \<Rightarrow> None
      | Some (unique, used_names') \<Rightarrow>
          (case ensure_unique_calls n filename used_names' of
             None \<Rightarrow> None
           | Some (rest, used_names'') \<Rightarrow> Some (unique # rest, used_names'')))"

section \<open>Floating-point percentages\<close>

text \<open>
  The progress value is \<open>int((idx / total_sections) * 100)\<close>. Both operations are
  done on IEEE 754 double-precision numbers: \<open>idx / total_sections\<close> is the double
  nearest to the exact quotient of the two integers, the product with \<open>100\<close> is the
  double nearest to the exact product, and \<open>int\<close> cuts the fraction off.

  A positive double is a pair \<open>(m, e)\<close> of a mantissa and an exponent, of value
  \<open>m * 2 ^ e\<close>. \<open>fp_round a b\<close> is the double nearest to the quotient \<open>a / b\<close> of two
  positive integers, with 53 significant bits and ties going to the even mantissa;
  exponents are not bounded, so overflow and subnormal numbers, which quotients of list
  positions never reach, are left out.
\<close>

fun floor_log2 :: "nat \<Rightarrow> nat" where
  "floor_log2 n = (if n < 2 then 0 else Suc (floor_log2 (n div 2)))"

declare floor_log2.simps [simp del]

text \<open>\<open>pow2_le k a b\<close>: \<open>2 ^ k \<le> a / b\<close>, for an integer \<open>k\<close> of either sign.\<close>

definition pow2_le :: "int \<Rightarrow> nat \<Rightarrow> nat \<Rightarrow> bool" where
  "pow2_le k a b \<longleftrightarrow> (if 0 \<le> k then b * 2 ^ nat k \<le> a else b \<le> a * 2 ^ nat (- k))"

definition fp_round :: "nat \<Rightarrow> nat \<Rightarrow> nat \<times> int" where
  "fp_round a b =
     (let k = int (floor_log2 a) - int (floor_log2 b);
          l = (if pow2_le k a b then k else k - 1);
          e = l - 52;
          n = (if 0 \<le> e then a else a * 2 ^ nat (- e));
          d = (if 0 \<le> e then b * 2 ^ nat e else b);
          q = n div d;
          r = n mod d;
          m = (if 2 * r < d then q else if d < 2 * r then q + 1
               else if even q then q else q + 1)
      in (m, e))"

text \<open>The double nearest to the product of the double \<open>(m, e)\<close> and the integer \<open>c\<close>.\<close>

definition fp_times :: "nat \<times> int \<Rightarrow> nat \<Rightarrow> nat \<times> int" where
  "fp_times x c =
     (if 0 \<le> snd x then fp_round (fst x * c * 2 ^ nat (snd x)) 1
      else fp_round (fst x * c) (2 ^ nat (- snd x)))"

text \<open>\<open>int(x)\<close> for a positive double: the integer part.\<close>

definition fp_trunc :: "nat \<times> int \<Rightarrow> int" where
  "fp_trunc x =
     (if 0 \<le> snd x then int (fst x * 2 ^ nat (snd x)) else int (fst x div 2 ^ nat (- snd x)))"

definition percent_complete :: "nat \<Rightarrow> nat \<Rightarrow> int" where
  "percent_complete idx total_sections = fp_trunc (fp_times (fp_round idx total_sections) 100)"

section \<open>The document and the splitter\<close>

text \<open>
  A paragraph of the document, as the splitter reads it: the name of its style
  (\<open>None\<close> when \<open>paragraph.style\<close> or its name is missing) and its text.
\<close>

record Paragraph =
  para_style :: "pystr option"
  para_text :: pystr

record Section =
  title :: pystr
  safe_title :: pystr
  level :: int
  content :: "Paragraph list"
  start_index :: nat
  end_index :: "int option"

text \<open>\<open>StyleProcessor.get_heading_level\<close>; an empty style name is false in Python.\<close>

definition get_heading_level :: "(pystr \<rightharpoonup> int) \<Rightarrow> Paragraph \<Rightarrow> int option" where
  "get_heading_level heading_levels para =
     (case para_style para of
        None \<Rightarrow> None
      | Some n \<Rightarrow> if n = [] then None else heading_levels n)"

text \<open>
  The field \<open>cancel_requested\<close> is written by \<open>cancel()\<close> on the thread of the user
  interface while the worker runs. The worker reads it at fixed places; a value of type
  \<open>cancel_flag\<close> gives what each of these reads sees.
\<close>

datatype checkpoint =
    Cleaning nat \<comment> \<open>\<open>_clean_document\<close>, at paragraph \<open>idx\<close>\<close>
  | Parsing nat \<comment> \<open>the loop of \<open>parse_sections\<close>, at paragraph \<open>idx\<close>\<close>
  | Parsed \<comment> \<open>the end of \<open>parse_sections\<close>\<close>
  | Processing \<comment> \<open>\<open>process_document\<close>, after the sections are there\<close>
  | BeforeSection nat \<comment> \<open>the loops that write the sections, at section \<open>idx\<close>\<close>
  | AfterSections \<comment> \<open>after these loops\<close>

type_synonym cancel_flag = "checkpoint \<Rightarrow> bool"

text \<open>
  The calls of the two callbacks, in order. A status message is kept as its template
  and the values put into it.
\<close>

type_synonym path = "pystr list"

datatype status =
    Cancellation_requested
  | Canceled_during_cleaning
  | Parsing_at int
  | Canceled_during_parsing
  | Canceled
  | Found_sections nat int
  | Canceled_by_user
  | Processed nat nat pystr
  | Error_processing pystr pystr
  | Canceled_creating_archive
  | Created_archive path
  | Canceled_saving_files
  | Saved_documents nat path

datatype event = Status status | Progress int

text \<open>
  The document that \<open>_create_section_document\<close> builds: the heading, then a copy of
  every paragraph of the section whose text is neither the title nor blank.
\<close>

datatype out_paragraph = Heading pystr int | Body Paragraph

type_synonym document = "out_paragraph list"

definition create_section_document :: "Section \<Rightarrow> document" where
  "create_section_document sec =
     Heading (title sec) (level sec) #
     map Body (filter (\<lambda>para. para_text para \<noteq> title sec \<and> strip (para_text para) \<noteq> [])
       (content sec))"

text \<open>
  A file is a saved document or a zip archive, the list of its members in the order
  they were written.
\<close>

datatype file_content = Docx document | Zip "(pystr \<times> document) list"

text \<open>
  The splitter object together with what it acts on: the paragraphs of \<open>self.doc\<close>,
  the dictionary of the style processor, \<open>self.sections\<close>, the stem of the input
  path, the calls made to the callbacks, and the files and directories of the file
  system.
\<close>

record splitter =
  doc :: "Paragraph list"
  heading_levels :: "pystr \<rightharpoonup> int"
  sections :: "Section list"
  input_stem :: pystr
  events :: "event list"
  files :: "path \<rightharpoonup> file_content"
  dirs :: "path set"

definition emit :: "event \<Rightarrow> splitter \<Rightarrow> splitter" where
  "emit ev sp = sp\<lparr>events := events sp @ [ev]\<rparr>"

text \<open>
  \<open>cancel()\<close>, seen from the splitter: the message to the status callback. The flag it
  sets is read through the \<open>cancel_flag\<close>.
\<close>

definition cancel :: "splitter \<Rightarrow> splitter" where
  "cancel sp = emit (Status Cancellation_requested) sp"

subsection \<open>\<open>_clean_document\<close>\<close>

text \<open>
  The first loop: the list \<open>paragraphs_to_remove\<close>, or \<open>None\<close> when the flag is seen
  set. \<open>paragraphs\<close> is the whole list \<open>doc.paragraphs\<close>, \<open>idx\<close> the position of the
  first of the paragraphs still to visit.
\<close>

fun clean_scan ::
  "(pystr \<rightharpoonup> int) \<Rightarrow> int \<Rightarrow> cancel_flag \<Rightarrow> Paragraph list \<Rightarrow> nat \<Rightarrow> Paragraph list
     \<Rightarrow> nat list \<Rightarrow> nat list option" where
  "clean_scan hl target_level flag paragraphs idx [] paragraphs_to_remove =
     Some paragraphs_to_remove"
| "clean_scan hl target_level flag paragraphs idx (para # rest) paragraphs_to_remove =
     (if idx mod 100 = 0 \<and> flag (Cleaning idx) then None
      else
        (case get_heading_level hl para of
           None \<Rightarrow> clean_scan hl target_level flag paragraphs (idx + 1) rest paragraphs_to_remove
         | Some lvl \<Rightarrow>
             if (lvl < target_level \<and> lvl \<noteq> target_level) \<or> strip (para_text para) = []
             then clean_scan hl target_level flag paragraphs (idx + 1) rest
                    (paragraphs_to_remove @ [idx] @
                      (if idx + 1 < length paragraphs
                          \<and> strip (para_text (paragraphs ! (idx + 1))) = []
                       then [idx + 1] else []))
             else clean_scan hl target_level flag paragraphs (idx + 1) rest paragraphs_to_remove))"

text \<open>One round of the second loop: the paragraph at \<open>idx\<close> is taken out, if there is one.\<close>

definition remove_paragraph :: "Paragraph list \<Rightarrow> nat \<Rightarrow> Paragraph list" where
  "remove_paragraph paragraphs idx =
     (if idx < length paragraphs then take idx paragraphs @ drop (idx + 1) paragraphs
      else paragraphs)"

definition clean_document :: "cancel_flag \<Rightarrow> int \<Rightarrow> splitter \<Rightarrow> splitter" where
  "clean_document flag target_level sp =
     (case clean_scan (heading_levels sp) target_level flag (doc sp) 0 (doc sp) [] of
        None \<Rightarrow> emit (Status Canceled_during_cleaning) sp
      | Some paragraphs_to_remove \<Rightarrow>
          sp\<lparr>doc := foldl remove_paragraph (doc sp) (rev (sort paragraphs_to_remove))\<rparr>)"

subsection \<open>\<open>parse_sections\<close>\<close>

text \<open>
  A call returns a value, raises an exception or never returns.
\<close>

datatype exn = ValueError

datatype 'a outcome = Return 'a | Raise exn | Never_returns

text \<open>
  The \<open>Section\<close> objects are shared: \<open>current_section\<close> and an entry of
  \<open>self.sections\<close> are the same object, which \<open>content.append\<close> changes in place,
  and \<open>list.remove\<close> finds it by identity. So the loop runs on a store \<open>objects\<close> of
  all the sections made so far, and both \<open>section_refs\<close> (the list \<open>self.sections\<close>)
  and \<open>current_section\<close> hold positions in it.
\<close>

record parse_state =
  objects :: "Section list"
  section_refs :: "nat list"
  current_section :: "nat option"
  used_titles :: "pystr fset"

text \<open>
  Closing the current section, if there is one: its \<open>end_index\<close> is set, and when
  none of its paragraphs has text it is removed from \<open>self.sections\<close>, which raises
  \<open>ValueError\<close> when it is no longer there.
\<close>

definition close_section :: "parse_state \<Rightarrow> int \<Rightarrow> parse_state outcome" where
  "close_section st e =
     (case current_section st of
        None \<Rightarrow> Return st
      | Some r \<Rightarrow>
          (let st' = st\<lparr>objects := (objects st)[r := (objects st ! r)\<lparr>end_index := Some e\<rparr>]\<rparr>
           in if \<not> list_ex (\<lambda>p. strip (para_text p) \<noteq> []) (content (objects st' ! r))
              then (if r \<in> set (section_refs st')
                    then Return (st'\<lparr>section_refs := remove1 r (section_refs st')\<rparr>)
                    else Raise ValueError)
              else Return st'))"

text \<open>The body of the loop for the paragraph \<open>para\<close> at position \<open>idx\<close>.\<close>

definition parse_paragraph ::
  "(pystr \<rightharpoonup> int) \<Rightarrow> int \<Rightarrow> parse_state \<Rightarrow> nat \<Rightarrow> Paragraph \<Rightarrow> parse_state outcome" where
  "parse_paragraph hl target_level st idx para =
     (if get_heading_level hl para = Some target_level then
        (case close_section st (int idx - 1) of
           Return st1 \<Rightarrow>
             if strip (para_text para) \<noteq> [] then
               (case ensure_unique (sanitize (para_text para)) (used_titles st1) of
                  None \<Rightarrow> Never_returns
                | Some (unique_title, used) \<Rightarrow>
                    Return (st1\<lparr>objects := objects st1 @
                                  [\<lparr>title = para_text para, safe_title = unique_title,
                                    level = target_level, content = [], start_index = idx,
                                    end_index = None\<rparr>],
                                section_refs := section_refs st1 @ [length (objects st1)],
                                current_section := Some (length (objects st1)),
                                used_titles := used\<rparr>))
             else Return st1
         | Raise e \<Rightarrow> Raise e
         | Never_returns \<Rightarrow> Never_returns)
      else
        (case current_section st of
           Some r \<Rightarrow>
             Return (st\<lparr>objects :=
               (objects st)[r := (objects st ! r)\<lparr>content := content (objects st ! r) @ [para]\<rparr>]\<rparr>)
         | None \<Rightarrow> Return st))"

text \<open>
  The loop over the paragraphs from position \<open>idx\<close> on. It is left with the state
  after the last paragraph, or early when the flag is seen set.
\<close>

datatype loop_exit = Canceled_at nat | Finished parse_state

fun parse_loop ::
  "(pystr \<rightharpoonup> int) \<Rightarrow> int \<Rightarrow> cancel_flag \<Rightarrow> nat \<Rightarrow> Paragraph list \<Rightarrow> parse_state
     \<Rightarrow> loop_exit outcome" where
  "parse_loop hl target_level flag idx [] st = Return (Finished st)"
| "parse_loop hl target_level flag idx (para # rest) st =
     (if idx mod 50 = 0 \<and> flag (Parsing idx) then Return (Canceled_at idx)
      else
        (case parse_paragraph hl target_level st idx para of
           Return st' \<Rightarrow> parse_loop hl target_level flag (idx + 1) rest st'
         | Raise e \<Rightarrow> Raise e
         | Never_returns \<Rightarrow> Never_returns))"

text \<open>
  \<open>parse_sections\<close>. The sections already in \<open>self.sections\<close> are the first objects
  of the store; \<open>used_titles\<close> starts empty.
\<close>

definition parse_sections :: "cancel_flag \<Rightarrow> int \<Rightarrow> splitter \<Rightarrow> splitter outcome" where
  "parse_sections flag target_level sp0 =
     (let sp = clean_document flag target_level (emit (Status (Parsing_at target_level)) sp0);
          st0 = \<lparr>objects = sections sp, section_refs = [0..<length (sections sp)],
                 current_section = None, used_titles = {||}\<rparr>
      in case parse_loop (heading_levels sp) target_level flag 0 (doc sp) st0 of
           Return (Canceled_at idx) \<Rightarrow>
             Return (emit (Status Canceled_during_parsing) sp\<lparr>sections := []\<rparr>)
         | Return (Finished st) \<Rightarrow>
             (case close_section st (int (length (doc sp)) - 1) of
                Return st' \<Rightarrow>
                  if flag Parsed then Return (emit (Status Canceled) sp\<lparr>sections := []\<rparr>)
                  else Return (emit (Status (Found_sections (length (section_refs st')) target_level))
                          sp\<lparr>sections := map (\<lambda>r. objects st' ! r) (section_refs st')\<rparr>)
              | Raise e \<Rightarrow> Raise e
              | Never_returns \<Rightarrow> Never_returns)
         | Raise e \<Rightarrow> Raise e
         | Never_returns \<Rightarrow> Never_returns)"

section \<open>Writing the sections\<close>

text \<open>
  What \<open>_create_section_document\<close>, \<open>doc.save\<close> and \<open>archive.write\<close> raise comes from
  the document library and the file system, not from the splitter. The runs below take
  it as \<open>raises\<close>: \<open>raises idx = Some msg\<close> when the \<open>try\<close> block of section \<open>idx\<close>
  raises an exception of text \<open>msg\<close> before the section is written, \<open>None\<close> when the
  block runs to its end. The files of the temporary directory are gone when
  \<open>_create_zip_archive\<close> returns and are not kept in the model.
\<close>

type_synonym raises = "nat \<Rightarrow> pystr option"

definition docx_name :: "Section \<Rightarrow> pystr" where
  "docx_name sec = safe_title sec @ ustr ''.docx''"

text \<open>
  The loop of \<open>_create_zip_archive\<close> from section \<open>idx\<close> on. The archive is open on
  the file at \<open>zip_path\<close>; \<open>members\<close> are the members written so far. The first
  component of the result tells whether the loop was left by \<open>return None\<close>.
\<close>

fun zip_loop ::
  "cancel_flag \<Rightarrow> raises \<Rightarrow> path \<Rightarrow> nat \<Rightarrow> nat \<Rightarrow> Section list \<Rightarrow> (pystr \<times> document) list
     \<Rightarrow> splitter \<Rightarrow> bool \<times> splitter" where
  "zip_loop flag raises zip_path total_sections idx [] members sp = (False, sp)"
| "zip_loop flag raises zip_path total_sections idx (sec # rest) members sp =
     (if flag (BeforeSection idx) then (True, emit (Status Canceled_by_user) sp)
      else
        (case raises idx of
           Some msg \<Rightarrow>
             zip_loop flag raises zip_path total_sections (idx + 1) rest members
               (emit (Status (Error_processing (safe_title sec) msg)) sp)
         | None \<Rightarrow>
             zip_loop flag raises zip_path total_sections (idx + 1) rest
               (members @ [(docx_name sec, create_section_document sec)])
               (emit (Status (Processed idx total_sections (safe_title sec)))
                 (emit (Progress (percent_complete idx total_sections))
                   (sp\<lparr>files := (files sp)(zip_path \<mapsto>
                      Zip (members @ [(docx_name sec, create_section_document sec)]))\<rparr>)))))"

text \<open>
  \<open>_create_zip_archive\<close>: \<open>zipfile.ZipFile(zip_path, 'w', ...)\<close> creates the file at
  \<open>zip_path\<close> when it is opened, and leaving the \<open>with\<close> block, by \<open>return\<close> as
  well, closes it where it is. The result is the returned path, \<open>None\<close> for Python's
  \<open>None\<close>.
\<close>

definition zip_path_of :: "path \<Rightarrow> splitter \<Rightarrow> path" where
  "zip_path_of output_dir sp = output_dir @ [input_stem sp @ ustr ''_sections.zip'']"

definition create_zip_archive ::
  "cancel_flag \<Rightarrow> raises \<Rightarrow> path \<Rightarrow> splitter \<Rightarrow> path option \<times> splitter" where
  "create_zip_archive flag raises output_dir sp =
     (let zip_path = zip_path_of output_dir sp;
          r = zip_loop flag raises zip_path (length (sections sp)) 1 (sections sp) []
                (sp\<lparr>files := (files sp)(zip_path \<mapsto> Zip [])\<rparr>)
      in if fst r then (None, snd r)
         else if flag AfterSections
         then (None, emit (Status Canceled_creating_archive) (snd r))
         else (Some zip_path, emit (Status (Created_archive zip_path)) (snd r)))"

text \<open>The loop of \<open>_save_individual_files\<close> from section \<open>idx\<close> on.\<close>

fun save_loop ::
  "cancel_flag \<Rightarrow> raises \<Rightarrow> path \<Rightarrow> nat \<Rightarrow> nat \<Rightarrow> Section list \<Rightarrow> splitter
     \<Rightarrow> bool \<times> splitter" where
  "save_loop flag raises output_dir total_sections idx [] sp = (False, sp)"
| "save_loop flag raises output_dir total_sections idx (sec # rest) sp =
     (if flag (BeforeSection idx) then (True, emit (Status Canceled_by_user) sp)
      else
        (case raises idx of
           Some msg \<Rightarrow>
             save_loop flag raises output_dir total_sections (idx + 1) rest
               (emit (Status (Error_processing (safe_title sec) msg)) sp)
         | None \<Rightarrow>
             save_loop flag raises output_dir total_sections (idx + 1) rest
               (emit (Status (Processed idx total_sections (safe_title sec)))
                 (emit (Progress (percent_complete idx total_sections))
                   (sp\<lparr>files := (files sp)(output_dir @ [docx_name sec] \<mapsto>
                      Docx (create_section_document sec))\<rparr>)))))"

definition save_individual_files ::
  "cancel_flag \<Rightarrow> raises \<Rightarrow> path \<Rightarrow> splitter \<Rightarrow> path option \<times> splitter" where
  "save_individual_files flag raises output_dir sp =
     (let r = save_loop flag raises output_dir (length (sections sp)) 1 (sections sp) sp
      in if fst r then (None, snd r)
         else if flag AfterSections
         then (None, emit (Status Canceled_saving_files) (snd r))
         else (Some output_dir,
               emit (Status (Saved_documents (length (sections sp)) output_dir)) (snd r)))"

text \<open>
  \<open>process_document\<close>; \<open>output_dir.mkdir(parents=True, exist_ok=True)\<close> is the entry
  of \<open>output_dir\<close> into \<open>dirs\<close>.
\<close>

definition process_document ::
  "cancel_flag \<Rightarrow> raises \<Rightarrow> path \<Rightarrow> int \<Rightarrow> bool \<Rightarrow> splitter
     \<Rightarrow> (path option \<times> splitter) outcome" where
  "process_document flag raises output_dir target_level create_zip sp0 =
     (case (if sections sp0 = [] then parse_sections flag target_level sp0 else Return sp0) of
        Return sp \<Rightarrow>
          if flag Processing \<or> sections sp = [] then Return (None, sp)
          else
            (let sp1 = sp\<lparr>dirs := insert output_dir (dirs sp)\<rparr>
             in if create_zip then Return (create_zip_archive flag raises output_dir sp1)
                else Return (save_individual_files flag raises output_dir sp1))
      | Raise e \<Rightarrow> Raise e
      | Never_returns \<Rightarrow> Never_returns)"

text \<open>The values handed to the progress callback, in order.\<close>

fun progress_values :: "event list \<Rightarrow> int list" where
  "progress_values [] = []"
| "progress_values (Progress p # evs) = p # progress_values evs"
| "progress_values (Status s # evs) = progress_values evs"

section \<open>Example documents\<close>

definition heading3 :: "pystr \<Rightarrow> Paragraph" where
  "heading3 t = \<lparr>para_style = Some (ustr ''Heading 3''), para_text = t\<rparr>"

definition normal :: "pystr \<Rightarrow> Paragraph" where
  "normal t = \<lparr>para_style = Some (ustr ''Normal''), para_text = t\<rparr>"

text \<open>A new splitter on the paragraphs \<open>ps\<close>, with \<open>Heading 3\<close> the only heading style.\<close>

definition new_splitter :: "Paragraph list \<Rightarrow> splitter" where
  "new_splitter ps =
     \<lparr>doc = ps, heading_levels = [ustr ''Heading 3'' \<mapsto> 3], sections = [],
      input_stem = ustr ''input'', events = [], files = Map.empty, dirs = {}\<rparr>"

definition never :: cancel_flag where
  "never cp = False"

definition no_error :: raises where
  "no_error idx = None"

text \<open>Headings \<open>A\<close>, blank and \<open>B\<close>, each with one paragraph of text after it.\<close>

definition doc_A_blank_B :: "Paragraph list" where
  "doc_A_blank_B =
     [heading3 (ustr ''A''), normal (ustr ''a''), heading3 (ustr '' ''), normal (ustr ''x''),
      heading3 (ustr ''B''), normal (ustr ''b'')]"

text \<open>Two empty headings in a row, then a paragraph of text.\<close>

definition doc_two_empty_headings :: "Paragraph list" where
  "doc_two_empty_headings = [heading3 [], heading3 [], normal (ustr ''X'')]"

text \<open>A flag that is set once the sections are parsed, and one that is set throughout.\<close>

definition set_after_parsing :: cancel_flag where
  "set_after_parsing cp =
     (case cp of Cleaning idx \<Rightarrow> False | Parsing idx \<Rightarrow> False | Parsed \<Rightarrow> False | _ \<Rightarrow> True)"

definition always :: cancel_flag where
  "always cp = True"

text \<open>A flag that is seen set from the checkpoint before section \<open>k\<close> on.\<close>

definition set_at_section :: "nat \<Rightarrow> cancel_flag" where
  "set_at_section k cp =
     (case cp of BeforeSection idx \<Rightarrow> k \<le> idx | AfterSections \<Rightarrow> True | _ \<Rightarrow> False)"

text \<open>Three sections with one paragraph each, and a splitter that holds given sections.\<close>

definition section_A :: Section where
  "section_A = \<lparr>title = ustr ''A'', safe_title = ustr ''A'', level = 3,
     content = [normal (ustr ''a'')], start_index = 0, end_index = Some 1\<rparr>"

definition section_B :: Section where
  "section_B = \<lparr>title = ustr ''B'', safe_title = ustr ''B'', level = 3,
     content = [normal (ustr ''b'')], start_index = 2, end_index = Some 3\<rparr>"

definition section_C :: Section where
  "section_C = \<lparr>title = ustr ''C'', safe_title = ustr ''C'', level = 3,
     content = [normal (ustr ''c'')], start_index = 4, end_index = Some 5\<rparr>"

definition splitter_with :: "Section list \<Rightarrow> splitter" where
  "splitter_with secs = (new_splitter [])\<lparr>sections := secs\<rparr>"

text \<open>Two headings \<open>A\<close> in a row, then a paragraph of text.\<close>

definition doc_same_title :: "Paragraph list" where
  "doc_same_title = [heading3 (ustr ''A''), heading3 (ustr ''A''), normal (ustr ''b'')]"

text \<open>The state in which the loop of \<open>parse_sections\<close> starts on a new splitter.\<close>

definition initial_state :: parse_state where
  "initial_state =
     \<lparr>objects = [], section_refs = [], current_section = None, used_titles = {||}\<rparr>"

text \<open>
  The state of the loop on \<open>doc_same_title\<close> after the first heading \<open>A\<close>, and
  after its section is closed, with no text, at the second heading.
\<close>

definition state_after_A :: parse_state where
  "state_after_A =
     \<lparr>objects =
        [\<lparr>title = ustr ''A'', safe_title = ustr ''A'', level = 3, content = [],
          start_index = 0, end_index = None\<rparr>],
      section_refs = [0], current_section = Some 0,
      used_titles = finsert (ustr ''A'') {||}\<rparr>"

definition state_closed_A :: parse_state where
  "state_closed_A =
     \<lparr>objects =
        [\<lparr>title = ustr ''A'', safe_title = ustr ''A'', level = 3, content = [],
          start_index = 0, end_index = Some 0\<rparr>],
      section_refs = [], current_section = Some 0,
      used_titles = finsert (ustr ''A'') {||}\<rparr>"

text \<open>
  A section \<open>A_1\<close> with text, then two headings \<open>A\<close> in a row, then a paragraph of
  text.
\<close>

definition doc_A1_A_A :: "Paragraph list" where
  "doc_A1_A_A =
     [heading3 (ustr ''A_1''), normal (ustr ''x''), heading3 (ustr ''A''),
      heading3 (ustr ''A''), normal (ustr ''b'')]"

section \<open>Auxiliary predicates\<close>

text \<open>\<open>no_run P s\<close>: no two neighbours in \<open>s\<close> both satisfy \<open>P\<close>.\<close>

fun no_run :: "(nat \<Rightarrow> bool) \<Rightarrow> pystr \<Rightarrow> bool" where
  "no_run P (a # b # cs) \<longleftrightarrow> \<not> (P a \<and> P b) \<and> no_run P (b # cs)"
| "no_run P [a] \<longleftrightarrow> True"
| "no_run P [] \<longleftrightarrow> True"

text \<open>
  The set \<open>used_names\<close> after \<open>k\<close> calls of \<open>ensure_unique\<close> with the name
  \<open>base\<close> on a set that was empty.
\<close>

definition names_upto :: "pystr \<Rightarrow> nat \<Rightarrow> pystr fset" where
  "names_upto base k = fset_of_list (base # map (numbered base) [1..<k])"


text \<open>
  The members that the loop of \<open>_create_zip_archive\<close> writes for the sections \<open>secs\<close>,
  the first of which has the number \<open>idx\<close>, when it is not canceled.
\<close>

fun written :: "raises \<Rightarrow> nat \<Rightarrow> Section list \<Rightarrow> (pystr \<times> document) list" where
  "written raises idx [] = []"
| "written raises idx (sec # rest) =
     (case raises idx of
        None \<Rightarrow> [(docx_name sec, create_section_document sec)]
      | Some msg \<Rightarrow> []) @ written raises (idx + 1) rest"

text \<open>
  The percentage the specification asks for at section \<open>idx\<close> of \<open>n\<close>:
  \<open>idx / n * 100\<close> rounded to the nearest integer.
\<close>

definition spec_progress :: "nat \<Rightarrow> nat \<Rightarrow> int" where
  "spec_progress idx n = round (rat_of_nat idx / rat_of_nat n * 100)"

text \<open>
  \<open>kept hl t para\<close>: the first loop of \<open>_clean_document\<close> does not mark \<open>para\<close> as a
  heading to remove.
\<close>

definition kept :: "(pystr \<rightharpoonup> int) \<Rightarrow> int \<Rightarrow> Paragraph \<Rightarrow> bool" where
  "kept hl t para =
     (case get_heading_level hl para of
        None \<Rightarrow> True
      | Some l \<Rightarrow> \<not> l < t \<and> strip (para_text para) \<noteq> [])"

text \<open>The paragraphs \<open>xs\<close> appended to the content of the section object \<open>r\<close>.\<close>

definition add_content :: "nat \<Rightarrow> Paragraph list \<Rightarrow> parse_state \<Rightarrow> parse_state" where
  "add_content r xs st =
     st\<lparr>objects := (objects st)[r := (objects st ! r)\<lparr>content := content (objects st ! r) @ xs\<rparr>]\<rparr>"


text \<open>
  \<open>titles_used st\<close>: the safe title of every section object made so far, kept in
  \<open>self.sections\<close> or not, is in \<open>used_titles\<close>.
\<close>

definition titles_used :: "parse_state \<Rightarrow> bool" where
  "titles_used st \<longleftrightarrow> set (map safe_title (objects st)) \<subseteq> fset (used_titles st)"

section \<open>Properties of \<open>sanitize_filename\<close>\<close>

lemma sub_each_delete: "sub_each P [] s = filter (\<lambda>c. \<not> P c) s"
  by (induction s) auto

lemma sub_runs_id: "\<forall>c\<in>set s. \<not> P c \<Longrightarrow> sub_runs P r s = s"
  by (induction s) auto

lemma set_sub_runs: "set (sub_runs P r s) \<subseteq> set s \<union> set r"
proof (induction P r s rule: sub_runs.induct)
  case (1 P r)
  then show ?case by simp
next
  case (2 P r c cs)
  show ?case
  proof (cases "P c")
    case True
    with 2 have "set (sub_runs P r (dropWhile P cs)) \<subseteq> set (dropWhile P cs) \<union> set r" by simp
    moreover have "set (dropWhile P cs) \<subseteq> set cs" by (auto dest: set_dropWhileD)
    ultimately show ?thesis using True by auto
  next
    case False
    with 2 show ?thesis by auto
  qed
qed

lemma sub_runs_free: "\<forall>c\<in>set r. \<not> P c \<Longrightarrow> \<forall>c\<in>set (sub_runs P r s). \<not> P c"
proof (induction P r s rule: sub_runs.induct)
  case (1 P r)
  then show ?case by simp
next
  case (2 P r c cs)
  show ?case
  proof (cases "P c")
    case True
    have "\<forall>x\<in>set (sub_runs P r (dropWhile P cs)). \<not> P x"
      by (rule 2(1) [OF True 2(3)])
    then have "\<forall>x\<in>set (r @ sub_runs P r (dropWhile P cs)). \<not> P x"
      using 2(3) by (simp add: ball_Un)
    then show ?thesis using True by (simp only: sub_runs.simps if_True)
  next
    case False
    have "\<forall>x\<in>set (sub_runs P r cs). \<not> P x"
      by (rule 2(2) [OF False 2(3)])
    then have "\<forall>x\<in>set (c # sub_runs P r cs). \<not> P x"
      using False by simp
    then show ?thesis using False by (simp only: sub_runs.simps if_False)
  qed
qed

lemma no_run_tl: "no_run P (a # s) \<Longrightarrow> no_run P s"
  by (cases s) auto

lemma no_run_take: "no_run P s \<Longrightarrow> no_run P (take n s)"
proof (induction P s arbitrary: n rule: no_run.induct)
  case (1 P a b cs)
  show ?case
  proof (cases n)
    case 0
    then show ?thesis by simp
  next
    case (Suc m)
    show ?thesis
    proof (cases m)
      case 0
      with Suc show ?thesis by simp
    next
      case (Suc k)
      from 1 have "no_run P (take m (b # cs))" by simp
      with 1(2) Suc \<open>n = Suc m\<close> show ?thesis by simp
    qed
  qed
next
  case (2 P a)
  then show ?case by (cases n) auto
next
  case (3 P)
  then show ?case by simp
qed

lemma no_run_dropWhile: "no_run P s \<Longrightarrow> no_run P (dropWhile Q s)"
  by (induction s) (auto dest: no_run_tl)

lemma no_run_append:
  "no_run P (xs @ ys) \<longleftrightarrow>
     no_run P xs \<and> no_run P ys \<and> (xs = [] \<or> ys = [] \<or> \<not> (P (last xs) \<and> P (hd ys)))"
proof (induction P xs rule: no_run.induct)
  case (1 P a b cs)
  then show ?case by auto
next
  case (2 P a)
  then show ?case by (cases ys) auto
next
  case (3 P)
  then show ?case by simp
qed

lemma no_run_rev: "no_run P (rev s) \<longleftrightarrow> no_run P s"
proof (induction s)
  case Nil
  then show ?case by simp
next
  case (Cons a s)
  show ?case
  proof (cases s)
    case Nil
    then show ?thesis by simp
  next
    case (Cons b t)
    with Cons.IH show ?thesis by (auto simp: no_run_append last_rev)
  qed
qed

lemma no_run_sub_runs: "P d \<Longrightarrow> no_run P (sub_runs P [d] s)"
proof (induction P "[d]" s rule: sub_runs.induct)
  case (1 P)
  then show ?case by simp
next
  case (2 P c cs)
  show ?case
  proof (cases "P c")
    case True
    show ?thesis
    proof (cases "dropWhile P cs")
      case Nil
      have "sub_runs P [d] (c # cs) = [d] @ sub_runs P [d] (dropWhile P cs)"
        using True by simp
      then show ?thesis unfolding Nil by simp
    next
      case (Cons x t)
      then have x: "\<not> P x" using hd_dropWhile [of P cs] by auto
      have "sub_runs P [d] (c # cs) = [d] @ sub_runs P [d] (dropWhile P cs)"
        using True by simp
      moreover have "no_run P (sub_runs P [d] (dropWhile P cs))"
        using 2 True by simp
      ultimately show ?thesis unfolding Cons using x by simp
    qed
  next
    case False
    with 2 show ?thesis by (cases "sub_runs P [d] cs") auto
  qed
qed

lemma sub_runs_no_run_id: "no_run P s \<Longrightarrow> \<forall>c. P c \<longrightarrow> c = d \<Longrightarrow> sub_runs P [d] s = s"
proof (induction P "[d]" s rule: sub_runs.induct)
  case (1 P)
  then show ?case by simp
next
  case (2 P c cs)
  show ?case
  proof (cases "P c")
    case True
    from True 2(3,4) have "dropWhile P cs = cs" by (cases cs) auto
    moreover from 2(3) have "no_run P cs" by (rule no_run_tl)
    ultimately show ?thesis using 2 True by auto
  next
    case False
    with 2 show ?thesis by (auto dest: no_run_tl)
  qed
qed

lemma last_dropWhile: "xs \<noteq> [] \<Longrightarrow> \<not> Q (last xs) \<Longrightarrow> dropWhile Q xs \<noteq> [] \<and> last (dropWhile Q xs) = last xs"
  by (induction xs) auto

lemma dropWhile_hd: "dropWhile Q s = [] \<or> \<not> Q (hd (dropWhile Q s))"
  by (induction s) simp_all

lemma strip_chars_edges:
  "strip_chars cs s = [] \<or> (hd (strip_chars cs s) \<notin> set cs \<and> last (strip_chars cs s) \<notin> set cs)"
proof -
  define Q where "Q = (\<lambda>c. c \<in> set cs)"
  define t where "t = dropWhile Q s"
  define u where "u = dropWhile Q (rev t)"
  have y: "strip_chars cs s = rev u" by (simp add: strip_chars_def Q_def t_def u_def)
  have t_hd: "t = [] \<or> \<not> Q (hd t)" unfolding t_def by (rule dropWhile_hd)
  have u_hd: "u = [] \<or> \<not> Q (hd u)" unfolding u_def by (rule dropWhile_hd)
  show ?thesis
  proof (cases "u = []")
    case True
    then show ?thesis by (simp add: y)
  next
    case False
    then have tne: "t \<noteq> []" by (auto simp: u_def)
    with t_hd have "\<not> Q (last (rev t))" by (simp add: last_rev)
    with tne have "last u = last (rev t)"
      unfolding u_def using last_dropWhile [of "rev t" Q] by simp
    then have "hd (rev u) = hd t" using tne by (simp add: hd_rev last_rev)
    moreover have "last (rev u) = hd u" using False by (simp add: last_rev)
    ultimately have "\<not> Q (hd (rev u)) \<and> \<not> Q (last (rev u))"
      using t_hd u_hd tne False by simp
    then show ?thesis unfolding y Q_def by simp
  qed
qed

lemma strip_chars_id:
  "s = [] \<or> (hd s \<notin> set cs \<and> last s \<notin> set cs) \<Longrightarrow> strip_chars cs s = s"
proof (cases s)
  case Nil
  then show ?thesis by (simp add: strip_chars_def)
next
  case (Cons a t)
  assume "s = [] \<or> (hd s \<notin> set cs \<and> last s \<notin> set cs)"
  with Cons have a: "a \<notin> set cs" and l: "last s \<notin> set cs" by auto
  from a Cons have 1: "dropWhile (\<lambda>c. c \<in> set cs) s = s" by simp
  from Cons have "s \<noteq> []" by simp
  with l have "hd (rev s) \<notin> set cs" by (simp add: hd_rev)
  moreover from Cons have "rev s \<noteq> []" by simp
  ultimately have "dropWhile (\<lambda>c. c \<in> set cs) (rev s) = rev s" by (cases "rev s") auto
  with 1 show ?thesis by (simp add: strip_chars_def)
qed

lemma set_strip_chars: "set (strip_chars cs s) \<subseteq> set s"
  by (auto simp: strip_chars_def dest!: set_dropWhileD)

lemma length_strip_chars: "length (strip_chars cs s) \<le> length s"
proof -
  let ?Q = "\<lambda>c. c \<in> set cs"
  have "length (dropWhile ?Q (rev (dropWhile ?Q s))) \<le> length (rev (dropWhile ?Q s))"
    by (rule length_dropWhile_le)
  also have "\<dots> \<le> length s" by (simp add: length_dropWhile_le)
  finally show ?thesis by (simp add: strip_chars_def)
qed

lemma no_run_strip_chars: "no_run P s \<Longrightarrow> no_run P (strip_chars cs s)"
  by (simp add: strip_chars_def no_run_rev no_run_dropWhile)


lemma ustr_underscore: "ustr ''_'' = [95]" and ustr_dot: "ustr ''.'' = [46]"
  and ustr_dot_underscore: "ustr ''._'' = [46, 95]"
  by (simp_all add: ustr_def)

lemma sanitize_unfold:
  "sanitize x =
     strip_chars [46, 95] (take 240 (sub_runs is_dot [46]
       (sub_runs isspace [95] (filter (\<lambda>c. c \<notin> set invalid_chars) x))))"
  by (simp add: sanitize_def sanitize_filename_def Let_def slice_to_def sub_each_delete
      ustr_underscore ustr_dot ustr_dot_underscore)

lemma sanitize_shape:
  shows sanitize_valid: "set (sanitize x) \<inter> set invalid_chars = {}"
    and sanitize_nospace: "\<forall>c\<in>set (sanitize x). \<not> isspace c"
    and sanitize_no_run: "no_run is_dot (sanitize x)"
    and sanitize_length: "length (sanitize x) \<le> 240"
    and sanitize_edges:
      "sanitize x = [] \<or> (hd (sanitize x) \<notin> set [46, 95] \<and> last (sanitize x) \<notin> set [46, 95])"
proof -
  define a where "a = filter (\<lambda>c. c \<notin> set invalid_chars) x"
  define b where "b = sub_runs isspace [95] a"
  define c where "c = sub_runs is_dot [46] b"
  define d where "d = take 240 c"
  have y: "sanitize x = strip_chars [46, 95] d"
    by (simp add: sanitize_unfold a_def b_def c_def d_def)
  have sp: "\<not> isspace 95" "\<not> isspace 46" by (simp_all add: isspace_def)
  have iv: "95 \<notin> set invalid_chars" "46 \<notin> set invalid_chars"
    by (simp_all add: invalid_chars_def)
  have a1: "set a \<inter> set invalid_chars = {}" by (auto simp: a_def)
  have "set b \<subseteq> set a \<union> set [95]" unfolding b_def by (rule set_sub_runs)
  with a1 iv have b1: "set b \<inter> set invalid_chars = {}" by auto
  have b2: "\<forall>c\<in>set b. \<not> isspace c"
    unfolding b_def by (rule sub_runs_free) (simp add: sp)
  have cb: "set c \<subseteq> set b \<union> set [46]" unfolding c_def by (rule set_sub_runs)
  with b1 iv have c1: "set c \<inter> set invalid_chars = {}" by auto
  from cb b2 sp have c2: "\<forall>x\<in>set c. \<not> isspace x" by auto
  have c3: "no_run is_dot c" unfolding c_def by (rule no_run_sub_runs) (simp add: is_dot_def)
  have dc: "set d \<subseteq> set c" unfolding d_def by (rule set_take_subset)
  have d3: "no_run is_dot d" unfolding d_def using c3 by (rule no_run_take)
  have d4: "length d \<le> 240" by (simp add: d_def)
  have yd: "set (sanitize x) \<subseteq> set d" unfolding y by (rule set_strip_chars)
  from yd dc c1 show "set (sanitize x) \<inter> set invalid_chars = {}" by auto
  from yd dc c2 show "\<forall>c\<in>set (sanitize x). \<not> isspace c" by auto
  from d3 show "no_run is_dot (sanitize x)" unfolding y by (rule no_run_strip_chars)
  have "length (sanitize x) \<le> length d" unfolding y by (rule length_strip_chars)
  with d4 show "length (sanitize x) \<le> 240" by simp
  show "sanitize x = [] \<or> (hd (sanitize x) \<notin> set [46, 95] \<and> last (sanitize x) \<notin> set [46, 95])"
    unfolding y by (rule strip_chars_edges)
qed

lemma sanitize_fixed:
  assumes "set y \<inter> set invalid_chars = {}" and "\<forall>c\<in>set y. \<not> isspace c"
    and "no_run is_dot y" and "length y \<le> 240"
    and "y = [] \<or> (hd y \<notin> set [46, 95] \<and> last y \<notin> set [46, 95])"
  shows "sanitize y = y"
proof -
  from assms(1) have 1: "filter (\<lambda>c. c \<notin> set invalid_chars) y = y"
    by (auto simp: filter_id_conv)
  from assms(2) have 2: "sub_runs isspace [95] y = y" by (rule sub_runs_id)
  from assms(3) have 3: "sub_runs is_dot [46] y = y"
    by (rule sub_runs_no_run_id) (simp add: is_dot_def)
  from assms(4) have 4: "take 240 y = y" by simp
  from assms(5) have 5: "strip_chars [46, 95] y = y" by (rule strip_chars_id)
  show ?thesis by (simp only: sanitize_unfold 1 2 3 4 5)
qed

lemma not_startswith_single: "s = [] \<or> hd s \<noteq> c \<Longrightarrow> \<not> startswith s [c]"
  by (cases s) (auto simp: startswith_def)

lemma not_endswith_single: "s = [] \<or> last s \<noteq> c \<Longrightarrow> \<not> endswith s [c]"
proof (cases s rule: rev_cases)
  case Nil
  then show ?thesis by (simp add: endswith_def)
next
  case (snoc t a)
  assume "s = [] \<or> last s \<noteq> c"
  with snoc show ?thesis by (simp add: endswith_def)
qed

text \<open>
  C6: with the default maximal length, \<open>sanitize_filename\<close> is idempotent, its result
  holds none of the nine characters of \<open>invalid_chars\<close>, and it neither starts nor
  ends with a dot or an underscore.
\<close>

theorem sanitize_idempotent:
  "sanitize (sanitize x) = sanitize x \<and>
   set (sanitize x) \<inter> set invalid_chars = {} \<and>
   \<not> startswith (sanitize x) (ustr ''.'') \<and> \<not> startswith (sanitize x) (ustr ''_'') \<and>
   \<not> endswith (sanitize x) (ustr ''.'') \<and> \<not> endswith (sanitize x) (ustr ''_'')"
proof -
  have idem: "sanitize (sanitize x) = sanitize x"
    by (rule sanitize_fixed [OF sanitize_valid sanitize_nospace sanitize_no_run
          sanitize_length sanitize_edges])
  have e: "sanitize x = [] \<or> (hd (sanitize x) \<notin> set [46, 95] \<and> last (sanitize x) \<notin> set [46, 95])"
    by (rule sanitize_edges)
  have s1: "\<not> startswith (sanitize x) [46]" by (rule not_startswith_single) (use e in auto)
  have s2: "\<not> startswith (sanitize x) [95]" by (rule not_startswith_single) (use e in auto)
  have e1: "\<not> endswith (sanitize x) [46]" by (rule not_endswith_single) (use e in auto)
  have e2: "\<not> endswith (sanitize x) [95]" by (rule not_endswith_single) (use e in auto)
  from idem sanitize_valid s1 s2 e1 e2 show ?thesis
    by (simp only: ustr_underscore ustr_dot simp_thms)
qed

section \<open>Decimal numbers and tokens\<close>

lemma digits_value_snoc: "digits_value acc (xs @ [c]) = digits_value acc xs * 10 + (c - 48)"
  by (induction xs arbitrary: acc) simp_all

lemma digits_value_str_nat: "digits_value 0 (str_nat n) = n"
proof (induction n rule: str_nat.induct)
  case (1 n)
  show ?case
  proof (cases "n < 10")
    case True
    then show ?thesis by (simp add: str_nat.simps [of n])
  next
    case False
    then have "digits_value 0 (str_nat (n div 10)) = n div 10" by (rule 1)
    with False show ?thesis by (simp add: str_nat.simps [of n] digits_value_snoc)
  qed
qed

lemma str_nat_inj: "str_nat i = str_nat j \<Longrightarrow> i = j"
  by (metis digits_value_str_nat)

lemma str_nat_digits: "list_all is_digit (str_nat n)"
proof (induction n rule: str_nat.induct)
  case (1 n)
  show ?case
  proof (cases "n < 10")
    case True
    then show ?thesis by (simp add: str_nat.simps [of n] is_digit_def)
  next
    case False
    then have "list_all is_digit (str_nat (n div 10))" by (rule 1)
    moreover have "is_digit (48 + n mod 10)" by (simp add: is_digit_def)
    ultimately show ?thesis using False by (simp add: str_nat.simps [of n])
  qed
qed

lemma str_nat_nonempty: "str_nat n \<noteq> []"
  by (simp add: str_nat.simps [of n])

lemma valid_digits_all: "s \<noteq> [] \<Longrightarrow> list_all is_digit s \<Longrightarrow> valid_digits s"
proof (induction s rule: valid_digits.induct)
  case 1
  then show ?case by simp
next
  case (2 c)
  then show ?case by simp
next
  case (3 c d cs)
  from 3(4) have d: "is_digit d" and c: "is_digit c" and r: "list_all is_digit (d # cs)" by simp_all
  from d have "d \<noteq> 95" by (auto simp: is_digit_def)
  moreover from this r have "valid_digits (d # cs)" by (intro 3(2)) simp_all
  ultimately show ?case using c by simp
qed

lemma digit_not_space: "is_digit c \<Longrightarrow> \<not> isspace c"
  by (auto simp: is_digit_def isspace_def)

lemma strip_id: "list_all (\<lambda>c. \<not> isspace c) s \<Longrightarrow> strip s = s"
proof -
  assume a: "list_all (\<lambda>c. \<not> isspace c) s"
  then have 1: "dropWhile isspace s = s" by (cases s) simp_all
  from a have "list_all (\<lambda>c. \<not> isspace c) (rev s)" by (simp add: list_all_iff)
  then have "dropWhile isspace (rev s) = rev s" by (cases "rev s") simp_all
  with 1 show ?thesis by (simp add: strip_def)
qed

lemma digit_to_ascii: "is_digit c \<Longrightarrow> to_ascii c = c"
  by (simp add: is_digit_def to_ascii_def)

lemma digit_not_ascii_space: "is_digit c \<Longrightarrow> \<not> ascii_space c"
  by (auto simp: is_digit_def ascii_space_def)

lemma py_int_digits:
  assumes "s \<noteq> []" and "list_all is_digit s" and "length s \<le> max_str_digits"
  shows "py_int s = Some (int (digits_value 0 s))"
proof -
  from assms(2) have a: "map to_ascii s = s"
    by (simp add: list_all_iff map_idI digit_to_ascii)
  from assms(2) have ns: "list_all (\<lambda>c. \<not> ascii_space c) s"
    by (simp add: list_all_iff digit_not_ascii_space)
  then have 1: "dropWhile ascii_space s = s" by (cases s) simp_all
  from ns have "list_all (\<lambda>c. \<not> ascii_space c) (rev s)" by (simp add: list_all_iff)
  then have 2: "dropWhile ascii_space (rev s) = rev s" by (cases "rev s") simp_all
  from assms have "is_digit (hd s)" by (cases s) simp_all
  then have h: "hd s \<noteq> 45" "hd s \<noteq> 43" by (auto simp: is_digit_def)
  from assms(1,2) have v: "valid_digits s" by (rule valid_digits_all)
  from assms(2) have f: "filter is_digit s = s" by (simp add: list_all_iff)
  show ?thesis by (simp add: py_int_def a 1 2 h v f assms(3))
qed

lemma py_int_str_nat:
  "length (str_nat n) \<le> max_str_digits \<Longrightarrow> py_int (str_nat n) = Some (int n)"
  by (simp add: py_int_digits str_nat_nonempty str_nat_digits digits_value_str_nat)

lemma split_acc_word:
  "list_all (\<lambda>c. \<not> isspace c) w \<Longrightarrow> split_acc cur (w @ rest) = split_acc (cur @ w) rest"
  by (induction w arbitrary: cur) simp_all

lemma ustr_heading: "ustr ''Heading '' = [72, 101, 97, 100, 105, 110, 103, 32]"
  by (simp add: ustr_def)

lemma py_split_heading: "py_split (ustr ''Heading '' @ str_nat k) = [ustr ''Heading'', str_nat k]"
proof -
  have w: "list_all (\<lambda>c. \<not> isspace c) (str_nat k)"
    using str_nat_digits [of k] by (simp add: list_all_iff digit_not_space)
  have "split_acc [] (str_nat k @ []) = split_acc ([] @ str_nat k) []"
    using w by (rule split_acc_word)
  then have "split_acc [] (str_nat k) = [str_nat k]" by (simp add: str_nat_nonempty)
  then show ?thesis by (simp add: py_split_def ustr_def isspace_def)
qed

lemma parse_level_heading:
  "length (str_nat k) \<le> max_str_digits \<Longrightarrow>
   parse_level (ustr ''Heading '' @ str_nat k) = Some (int k)"
  by (simp add: parse_level_def py_split_heading py_int_str_nat)

lemma startswith_append: "startswith (p @ s) p"
  by (simp add: startswith_def)

section \<open>Properties of \<open>_process_styles\<close>\<close>

lemma process_style_other: "name st \<noteq> n \<Longrightarrow> process_style hl st n = hl n"
  by (simp add: process_style_def split: option.splits)

lemma process_style_base:
  assumes "style_type st = PARAGRAPH" and "\<not> startswith (name st) (ustr ''Heading '')"
    and "base_style st = Some (ustr ''Heading '' @ str_nat k)"
    and "length (str_nat k) \<le> max_str_digits"
  shows "process_style hl st (name st) = Some (int k)"
  using assms by (simp add: process_style_def startswith_append parse_level_heading)

text \<open>
  C4, as the code has it: a paragraph style whose own name does not start with
  \<open>Heading \<close> and whose base style is named \<open>Heading k\<close>, for a number \<open>k\<close> of at
  most 4300 decimal digits, is mapped to level \<open>k\<close>, in a document whose style names
  are unique. (A name that starts with
  \<open>Heading \<close> never reaches the base style: see the counterexample below.)
\<close>

theorem base_style_heading_level:
  assumes "st \<in> set styles" and "style_type st = PARAGRAPH"
    and "\<not> startswith (name st) (ustr ''Heading '')"
    and "base_style st = Some (ustr ''Heading '' @ str_nat k)"
    and "length (str_nat k) \<le> 4300"
    and "\<forall>s\<in>set styles. name s = name st \<longrightarrow> s = st"
  shows "process_styles styles (name st) = Some (int k)"
proof -
  have len: "length (str_nat k) \<le> max_str_digits"
    using assms(5) by (simp add: max_str_digits_def)
  have "foldl process_style hl styles (name st) = Some (int k)" for hl
    using assms(1,6)
  proof (induction styles rule: rev_induct)
    case Nil
    then show ?case by simp
  next
    case (snoc s xs)
    show ?case
    proof (cases "s = st")
      case True
      then show ?thesis by (simp add: process_style_base [OF assms(2,3,4) len])
    next
      case False
      with snoc.prems have n: "name s \<noteq> name st" and "st \<in> set xs" by auto
      moreover from snoc.prems have "\<forall>s\<in>set xs. name s = name st \<longrightarrow> s = st" by simp
      ultimately have "foldl process_style hl xs (name st) = Some (int k)"
        by (intro snoc.IH)
      with n show ?thesis by (simp add: process_style_other)
    qed
  qed
  then show ?thesis by (simp add: process_styles_def)
qed

lemma str_nat_2: "str_nat 2 = [50]"
  by (simp add: str_nat.simps)

theorem base_style_heading_level_witness:
  "process_styles [style_heading_2, style_custom] (ustr ''Custom'') = Some 2"
  using base_style_heading_level [of style_custom "[style_heading_2, style_custom]" 2]
  by (simp add: style_custom_def style_heading_2_def startswith_def ustr_def str_nat_2)

text \<open>
  The style named \<open>Heading A\<close> with base style \<open>Heading 2\<close>: its own name is no
  \<open>Heading <integer>\<close>, and it is left out of the map.
\<close>

theorem heading_named_style_not_inherited:
  "style_type style_heading_A = PARAGRAPH \<and>
   parse_level (name style_heading_A) = None \<and>
   base_style style_heading_A = Some (ustr ''Heading '' @ str_nat 2) \<and>
   process_styles [style_heading_A] (name style_heading_A) = None"
  by (simp add: style_heading_A_def process_styles_def process_style_def parse_level_def
      py_split_def py_int_def to_ascii_def ascii_space_def max_str_digits_def startswith_def
      ustr_def str_nat_2 isspace_def is_digit_def)

section \<open>Properties of \<open>ensure_unique\<close>\<close>

lemma length_takeWhile_less:
  assumes "\<not> (\<forall>x\<in>set xs. P x)"
  shows "length (takeWhile P xs) < length xs"
proof -
  have "length (takeWhile P xs) + length (dropWhile P xs) = length xs"
    by (metis length_append takeWhile_dropWhile_id)
  moreover from assms have "dropWhile P xs \<noteq> []" by (simp add: dropWhile_eq_Nil_conv)
  ultimately show ?thesis by (cases "dropWhile P xs") simp_all
qed

lemma length_numbered: "length (numbered base i) = length base + 1 + length (str_nat i)"
proof (cases "46 \<in> set base")
  case True
  then have "\<not> (\<forall>x\<in>set (rev base). x \<noteq> 46)" by simp
  then have "length (takeWhile (\<lambda>c. c \<noteq> 46) (rev base)) < length (rev base)"
    by (rule length_takeWhile_less)
  with True show ?thesis
    by (simp add: numbered_def rsplit_dot_def Let_def ustr_def)
next
  case False
  then show ?thesis by (simp add: numbered_def rsplit_dot_def ustr_def)
qed

lemma numbered_neq_base: "numbered base i \<noteq> base" and base_neq_numbered: "base \<noteq> numbered base i"
  using length_numbered [of base i] by auto

lemma numbered_inj: "numbered base i = numbered base j \<Longrightarrow> i = j"
  by (auto simp: numbered_def Let_def split: if_splits dest: str_nat_inj)

lemma ensure_unique_loop_numbered:
  assumes "\<forall>i. j \<le> i \<and> i < k \<longrightarrow> numbered base i |\<in>| used"
    and "numbered base k |\<notin>| used" and "j \<le> k"
  shows "ensure_unique_loop base (numbered base j) (j + 1) used = Some (numbered base k)"
  using assms(3,1)
proof (induction rule: inc_induct)
  case base
  show ?case using assms(2) by (subst ensure_unique_loop.simps) simp
next
  case (step n)
  from step.prems have "numbered base n |\<in>| used" using step.hyps by simp
  moreover have "ensure_unique_loop base (numbered base (Suc n)) (Suc n + 1) used
      = Some (numbered base k)"
    using step.prems by (intro step.IH) simp
  ultimately show ?case by (subst ensure_unique_loop.simps) simp
qed

lemma ensure_unique_empty: "ensure_unique base {||} = Some (base, names_upto base 1)"
  by (simp add: ensure_unique_def names_upto_def ensure_unique_loop.simps [of base base])

lemma ensure_unique_names_upto:
  assumes "1 \<le> k"
  shows "ensure_unique base (names_upto base k) = Some (numbered base k, names_upto base (Suc k))"
proof -
  have in_set: "numbered base i |\<in>| names_upto base k" if "1 \<le> i" "i < k" for i
    using that by (simp add: names_upto_def fset_of_list_elem)
  have notin: "numbered base k |\<notin>| names_upto base k"
    by (auto simp: names_upto_def fset_of_list_elem numbered_neq_base dest: numbered_inj)
  have "ensure_unique_loop base (numbered base 1) (1 + 1) (names_upto base k)
      = Some (numbered base k)"
    using in_set notin assms by (intro ensure_unique_loop_numbered) auto
  moreover have "base |\<in>| names_upto base k" by (simp add: names_upto_def)
  ultimately have "ensure_unique_loop base base 1 (names_upto base k) = Some (numbered base k)"
    by (subst ensure_unique_loop.simps) simp
  moreover have "finsert (numbered base k) (names_upto base k) = names_upto base (Suc k)"
    using assms by (auto simp: names_upto_def fset_of_list_elem)
  ultimately show ?thesis by (simp add: ensure_unique_def)
qed

lemma ensure_unique_calls_names_upto:
  "1 \<le> k \<Longrightarrow>
   ensure_unique_calls n base (names_upto base k)
     = Some (map (numbered base) [k..<k + n], names_upto base (k + n))"
proof (induction n arbitrary: k)
  case 0
  then show ?case by simp
next
  case (Suc n)
  from Suc.prems have "ensure_unique_calls n base (names_upto base (Suc k))
     = Some (map (numbered base) [Suc k..<Suc k + n], names_upto base (Suc k + n))"
    by (intro Suc.IH) simp
  moreover have "[k..<k + Suc n] = k # [Suc k..<Suc k + n]"
    by (subst upt_rec) simp
  ultimately show ?case
    using Suc.prems by (simp add: ensure_unique_names_upto del: upt_Suc)
qed

lemma ensure_unique_calls_empty:
  "ensure_unique_calls (Suc n) base {||}
     = Some (base # map (numbered base) [1..<Suc n], names_upto base (Suc n))"
  using ensure_unique_calls_names_upto [of 1 n base]
  by (simp add: ensure_unique_empty)

text \<open>
  The loop ends on every finite set: the names \<open>numbered base 1\<close>,
  \<open>numbered base 2\<close>, ... are pairwise distinct, so one of them is not in the set.
\<close>

lemma ensure_unique_returns:
  "\<exists>unique. ensure_unique filename used = Some (unique, finsert unique used) \<and> unique |\<notin>| used"
proof (cases "filename |\<in>| used")
  case False
  then show ?thesis
    by (simp add: ensure_unique_def ensure_unique_loop.simps [of filename filename])
next
  case True
  have "\<exists>i. numbered filename (Suc i) |\<notin>| used"
  proof (rule ccontr)
    assume "\<not> ?thesis"
    then have "range (\<lambda>i. numbered filename (Suc i)) \<subseteq> fset used" by auto
    then have "finite (range (\<lambda>i. numbered filename (Suc i)))"
      by (rule finite_subset) simp
    moreover have "inj (\<lambda>i. numbered filename (Suc i))"
      by (rule injI) (auto dest: numbered_inj)
    ultimately have "finite (UNIV :: nat set)" by (rule finite_imageD)
    then show False by simp
  qed
  then have ex: "\<exists>k. 1 \<le> k \<and> numbered filename k |\<notin>| used"
    by (metis le_add1 plus_1_eq_Suc)
  define k where "k = (LEAST k. 1 \<le> k \<and> numbered filename k |\<notin>| used)"
  from ex have k: "1 \<le> k" "numbered filename k |\<notin>| used"
    unfolding k_def by (metis (mono_tags, lifting) LeastI_ex)+
  have below: "numbered filename i |\<in>| used" if "1 \<le> i" "i < k" for i
    using that not_less_Least [of i "\<lambda>k. 1 \<le> k \<and> numbered filename k |\<notin>| used"]
    unfolding k_def by auto
  have "ensure_unique_loop filename (numbered filename 1) (1 + 1) used
      = Some (numbered filename k)"
    using below k by (intro ensure_unique_loop_numbered) auto
  with True have "ensure_unique_loop filename filename 1 used = Some (numbered filename k)"
    by (subst ensure_unique_loop.simps) simp
  with k(2) show ?thesis by (simp add: ensure_unique_def)
qed

text \<open>
  C7: \<open>N \<ge> 1\<close> calls of \<open>ensure_unique\<close> with one base name on one set that
  starts empty all return, their \<open>N\<close> results are pairwise distinct, exactly one
  of them is the base name itself, and every one is in the set afterwards.
\<close>

theorem ensure_unique_repeated:
  assumes "1 \<le> N"
  shows "\<exists>results used. ensure_unique_calls N base {||} = Some (results, used) \<and>
           length results = N \<and> distinct results \<and>
           length (filter (\<lambda>r. r = base) results) = 1 \<and>
           set results \<subseteq> fset used"
proof -
  from assms obtain n where N: "N = Suc n" by (cases N) auto
  let ?rs = "base # map (numbered base) [1..<Suc n]"
  have "inj_on (numbered base) (set [1..<Suc n])"
    by (rule inj_onI) (rule numbered_inj)
  then have d: "distinct (map (numbered base) [1..<Suc n])" by (simp add: distinct_map)
  have nb: "base \<notin> set (map (numbered base) [1..<Suc n])"
    using base_neq_numbered [of base] by (auto simp: image_iff)
  from d nb have 1: "distinct ?rs" by simp
  have "filter (\<lambda>r. r = base) (map (numbered base) [1..<Suc n]) = []"
    using numbered_neq_base [of base] by (simp add: filter_empty_conv)
  then have 2: "length (filter (\<lambda>r. r = base) ?rs) = 1" by simp
  have 3: "set ?rs \<subseteq> fset (names_upto base (Suc n))"
    by (simp add: names_upto_def fset_of_list.rep_eq)
  have 4: "length ?rs = N" by (simp add: N)
  show ?thesis
    unfolding N ensure_unique_calls_empty using 1 2 3 4 [unfolded N] by blast
qed

theorem ensure_unique_repeated_witness:
  "\<exists>results used. ensure_unique_calls 3 (ustr ''ab'') {||} = Some (results, used) \<and>
     length results = 3 \<and> distinct results \<and>
     length (filter (\<lambda>r. r = ustr ''ab'') results) = 1 \<and>
     set results \<subseteq> fset used"
  using ensure_unique_repeated [of 3 "ustr ''ab''"] by simp

section \<open>Properties of \<open>_clean_document\<close>\<close>

lemmas doc_eval =
  new_splitter_def heading3_def normal_def never_def ustr_def get_heading_level_def
  strip_def isspace_def emit_def

lemma scan_two_empty:
  "clean_scan [ustr ''Heading 3'' \<mapsto> 3] 3 never doc_two_empty_headings 0 doc_two_empty_headings []
     = Some [0, 1, 1]"
  by (simp add: doc_two_empty_headings_def doc_eval)

text \<open>
  C3 on two empty headings followed by a paragraph of text: the first loop marks the
  positions 0, 1 and 1 again, and the second loop, going through \<open>[1, 1, 0]\<close>, takes
  out the second heading, then the paragraph of text that has moved to position 1, then
  the first heading. The paragraph of text was not marked, and it is removed.
\<close>

theorem clean_document_removes_unmarked:
  "clean_scan (heading_levels (new_splitter doc_two_empty_headings)) 3 never
      doc_two_empty_headings 0 doc_two_empty_headings [] = Some [0, 1, 1] \<and>
   doc (clean_document never 3 (new_splitter doc_two_empty_headings)) = []"
proof -
  have h: "heading_levels (new_splitter doc_two_empty_headings) = [ustr ''Heading 3'' \<mapsto> 3]"
    and d: "doc (new_splitter doc_two_empty_headings) = doc_two_empty_headings"
    by (simp_all add: new_splitter_def)
  have r: "remove_paragraph (remove_paragraph (remove_paragraph doc_two_empty_headings 1) 1) 0 = []"
    by (simp add: doc_two_empty_headings_def remove_paragraph_def)
  have s: "rev (sort [0, 1, 1 :: nat]) = [1, 1, 0]" by simp
  have "clean_document never 3 (new_splitter doc_two_empty_headings)
      = (new_splitter doc_two_empty_headings)\<lparr>doc := []\<rparr>"
    by (simp only: clean_document_def h d scan_two_empty s option.case foldl.simps r)
  then show ?thesis by (simp add: h scan_two_empty)
qed

lemma never_False: "never cp = False"
  by (simp add: never_def)

lemma clean_scan_append:
  "clean_scan hl t flag ps idx (xs @ ys) acc =
     (case clean_scan hl t flag ps idx xs acc of
        None \<Rightarrow> None
      | Some acc' \<Rightarrow> clean_scan hl t flag ps (idx + length xs) ys acc')"
  by (induction xs arbitrary: idx acc) (simp_all split: option.splits)

lemma clean_scan_kept:
  "list_all (kept hl t) xs \<Longrightarrow> clean_scan hl t never ps idx xs acc = Some acc"
  by (induction xs arbitrary: idx) (auto simp: kept_def never_def split: option.splits)

lemma clean_document_kept:
  assumes "list_all (kept (heading_levels sp) t) (doc sp)"
  shows "clean_document never t sp = sp"
  using clean_scan_kept [OF assms, of "doc sp" 0 "[]"]
  by (simp add: clean_document_def)

lemma clean_document_one_blank_heading:
  assumes "doc sp = xs @ h # ys"
    and "list_all (kept (heading_levels sp) t) xs" and "list_all (kept (heading_levels sp) t) ys"
    and "get_heading_level (heading_levels sp) h = Some l" and "strip (para_text h) = []"
    and "ys = [] \<or> strip (para_text (hd ys)) \<noteq> []"
  shows "clean_document never t sp = sp\<lparr>doc := xs @ ys\<rparr>"
proof -
  let ?hl = "heading_levels sp"
  have 1: "clean_scan ?hl t never (doc sp) 0 xs [] = Some []"
    using assms(2) by (rule clean_scan_kept)
  have nxt: "\<not> (length xs + 1 < length (doc sp) \<and>
               strip (para_text (doc sp ! (length xs + 1))) = [])"
  proof (cases ys)
    case Nil
    then show ?thesis by (simp add: assms(1))
  next
    case (Cons y ys')
    with assms(6) have "strip (para_text y) \<noteq> []" by simp
    moreover have "doc sp ! (length xs + 1) = y"
      by (simp add: assms(1) Cons nth_append)
    ultimately show ?thesis by simp
  qed
  have 2: "clean_scan ?hl t never (doc sp) (length xs) (h # ys) [] = Some [length xs]"
    using nxt assms(4,5) clean_scan_kept [OF assms(3), of "doc sp" "length xs + 1" "[length xs]"]
    by (auto simp: never_False)
  have "clean_scan ?hl t never (doc sp) 0 (doc sp) [] = Some [length xs]"
    using 1 2 by (subst (2) assms(1)) (simp add: clean_scan_append)
  moreover have "remove_paragraph (doc sp) (length xs) = xs @ ys"
    by (simp add: remove_paragraph_def assms(1))
  ultimately show ?thesis by (simp add: clean_document_def)
qed

section \<open>Cancellation and empty results of \<open>parse_sections\<close>\<close>

lemma clean_scan_cong:
  "(\<And>i. flag' (Cleaning i) = flag (Cleaning i)) \<Longrightarrow>
   clean_scan hl t flag' ps idx rest acc = clean_scan hl t flag ps idx rest acc"
  by (induction rest arbitrary: idx acc) (simp_all split: option.splits)

lemma clean_document_cong:
  "(\<And>i. flag' (Cleaning i) = flag (Cleaning i)) \<Longrightarrow>
   clean_document flag' t sp = clean_document flag t sp"
  by (simp add: clean_document_def clean_scan_cong [of flag' flag])

lemma parse_loop_cong:
  "(\<And>i. flag' (Parsing i) = flag (Parsing i)) \<Longrightarrow>
   parse_loop hl t flag' idx ps st = parse_loop hl t flag idx ps st"
  by (induction ps arbitrary: idx st) (simp_all split: outcome.splits)

lemma parse_sections_cong:
  assumes "\<And>i. flag' (Cleaning i) = flag (Cleaning i)"
    and "\<And>i. flag' (Parsing i) = flag (Parsing i)"
    and "flag' Parsed = flag Parsed"
  shows "parse_sections flag' t sp = parse_sections flag t sp"
proof -
  have c: "clean_document flag' t x = clean_document flag t x" for x
    using assms(1) by (rule clean_document_cong)
  have p: "parse_loop hl t flag' idx ps st = parse_loop hl t flag idx ps st" for hl idx ps st
    using assms(2) by (rule parse_loop_cong)
  show ?thesis
    unfolding parse_sections_def Let_def c p assms(3) ..
qed

lemma clean_document_fields:
  "files (clean_document flag t sp) = files sp"
  "dirs (clean_document flag t sp) = dirs sp"
  "sections (clean_document flag t sp) = sections sp"
  "heading_levels (clean_document flag t sp) = heading_levels sp"
  "input_stem (clean_document flag t sp) = input_stem sp"
  by (simp_all add: clean_document_def emit_def split: option.splits)

lemma parse_sections_files:
  assumes "parse_sections flag t sp = Return sp'"
  shows "files sp' = files sp \<and> dirs sp' = dirs sp"
  using assms
  by (auto simp: parse_sections_def Let_def emit_def clean_document_fields
      split: outcome.splits loop_exit.splits if_splits)

lemma emit_fields:
  "sections (emit ev sp) = sections sp" "files (emit ev sp) = files sp"
  "dirs (emit ev sp) = dirs sp" "doc (emit ev sp) = doc sp"
  "heading_levels (emit ev sp) = heading_levels sp" "input_stem (emit ev sp) = input_stem sp"
  "events (emit ev sp) = events sp @ [ev]"
  by (simp_all add: emit_def)

lemma parse_sections_canceled:
  assumes "flag (Parsing 0)" and "flag Parsed"
  shows "\<exists>sp'. parse_sections flag t sp = Return sp' \<and> sections sp' = []"
proof -
  define sp1 where "sp1 = clean_document flag t (emit (Status (Parsing_at t)) sp)"
  have ps: "parse_sections flag t sp =
    (case parse_loop (heading_levels sp1) t flag 0 (doc sp1)
            \<lparr>objects = sections sp1, section_refs = [0..<length (sections sp1)],
               current_section = None, used_titles = {||}\<rparr> of
       Return (Canceled_at idx) \<Rightarrow>
         Return (emit (Status Canceled_during_parsing) sp1\<lparr>sections := []\<rparr>)
     | Return (Finished st) \<Rightarrow>
         (case close_section st (int (length (doc sp1)) - 1) of
            Return st' \<Rightarrow>
              if flag Parsed then Return (emit (Status Canceled) sp1\<lparr>sections := []\<rparr>)
              else Return (emit (Status (Found_sections (length (section_refs st')) t))
                      sp1\<lparr>sections := map (\<lambda>r. objects st' ! r) (section_refs st')\<rparr>)
          | Raise e \<Rightarrow> Raise e
          | Never_returns \<Rightarrow> Never_returns)
     | Raise e \<Rightarrow> Raise e
     | Never_returns \<Rightarrow> Never_returns)"
    unfolding parse_sections_def Let_def sp1_def ..
  show ?thesis
  proof (cases "doc sp1")
    case Nil
    then show ?thesis
      using assms(2) by (simp add: ps close_section_def)
  next
    case (Cons p ps')
    then show ?thesis
      using assms(1) by (simp add: ps)
  qed
qed

text \<open>
  C8: when the flag is set at the first checkpoint of the loop of \<open>parse_sections\<close>
  and stays set, \<open>parse_sections\<close> returns with an empty list of sections. What
  \<open>parse_sections\<close> returns depends on the flag at its own checkpoints only, so a
  flag that is set after it has returned changes nothing of its result; and \<open>cancel()\<close>
  itself leaves \<open>self.sections\<close> as it is.
\<close>

theorem parse_sections_cancellation:
  "(flag (Parsing 0) \<and> flag Parsed \<longrightarrow>
      (\<exists>sp'. parse_sections flag target_level sp = Return sp' \<and> sections sp' = [])) \<and>
   ((\<forall>idx. flag' (Cleaning idx) = flag (Cleaning idx)) \<and>
    (\<forall>idx. flag' (Parsing idx) = flag (Parsing idx)) \<and> flag' Parsed = flag Parsed \<longrightarrow>
      parse_sections flag' target_level sp = parse_sections flag target_level sp) \<and>
   sections (cancel sp) = sections sp"
proof (intro conjI impI)
  assume "flag (Parsing 0) \<and> flag Parsed"
  then show "\<exists>sp'. parse_sections flag target_level sp = Return sp' \<and> sections sp' = []"
    by (intro parse_sections_canceled) simp_all
next
  assume "(\<forall>idx. flag' (Cleaning idx) = flag (Cleaning idx)) \<and>
    (\<forall>idx. flag' (Parsing idx) = flag (Parsing idx)) \<and> flag' Parsed = flag Parsed"
  then show "parse_sections flag' target_level sp = parse_sections flag target_level sp"
    by (intro parse_sections_cong) simp_all
next
  show "sections (cancel sp) = sections sp" by (simp add: cancel_def emit_def)
qed

theorem parse_sections_cancellation_witness:
  "(\<exists>sp'. parse_sections always 3 (new_splitter doc_A_blank_B) = Return sp' \<and> sections sp' = []) \<and>
   parse_sections set_after_parsing 3 (new_splitter doc_A_blank_B)
     = parse_sections never 3 (new_splitter doc_A_blank_B) \<and>
   sections (cancel (new_splitter doc_A_blank_B)) = sections (new_splitter doc_A_blank_B)"
  using parse_sections_cancellation [of always 3 "new_splitter doc_A_blank_B" set_after_parsing]
    parse_sections_cancellation [of never 3 "new_splitter doc_A_blank_B" set_after_parsing]
  by (simp add: always_def never_def set_after_parsing_def)

text \<open>
  C9: on a new splitter, when no cancellation is ever requested and \<open>parse_sections\<close>
  returns with no section, \<open>process_document\<close> returns \<open>None\<close>, and no file and no
  directory has been written. So \<open>None\<close> is returned in a run that was not canceled.
\<close>

theorem process_document_no_sections:
  assumes "sections sp = []"
    and "parse_sections never target_level sp = Return sp'"
    and "sections sp' = []"
  shows "process_document never raises output_dir target_level create_zip sp = Return (None, sp') \<and>
         files sp' = files sp \<and> dirs sp' = dirs sp"
  using assms parse_sections_files [OF assms(2)]
  by (simp add: process_document_def)

lemma parse_text_only:
  "parse_sections never 3 (new_splitter [normal (ustr ''text'')])
     = Return ((new_splitter [normal (ustr ''text'')])
         \<lparr>events := [Status (Parsing_at 3), Status (Found_sections 0 3)]\<rparr>)"
  by (simp add: parse_sections_def clean_document_def parse_paragraph_def close_section_def
      new_splitter_def normal_def never_def ustr_def get_heading_level_def emit_def)

theorem process_document_no_sections_witness:
  "\<exists>sp'. process_document never no_error [ustr ''out''] 3 True
           (new_splitter [normal (ustr ''text'')]) = Return (None, sp') \<and>
         sections sp' = [] \<and> files sp' = Map.empty \<and> dirs sp' = {}"
  using process_document_no_sections [OF _ parse_text_only, of no_error "[ustr ''out'']" True]
  by (simp add: new_splitter_def)

section \<open>Cancellation of \<open>_create_zip_archive\<close>\<close>

lemma zip_loop_cancel:
  assumes "files sp zp = Some (Zip members)" and "idx \<le> k" and "k < idx + length secs"
    and "\<forall>i. idx \<le> i \<and> i < k \<longrightarrow> \<not> flag (BeforeSection i)" and "flag (BeforeSection k)"
  shows "fst (zip_loop flag raises zp n idx secs members sp) \<and>
         files (snd (zip_loop flag raises zp n idx secs members sp)) zp
           = Some (Zip (members @ written raises idx (take (k - idx) secs)))"
  using assms
proof (induction secs arbitrary: idx members sp)
  case Nil
  then show ?case by simp
next
  case (Cons sec rest)
  show ?case
  proof (cases "idx = k")
    case True
    with Cons.prems show ?thesis by (simp add: emit_fields)
  next
    case False
    with Cons.prems have lt: "idx < k" and nf: "\<not> flag (BeforeSection idx)" by auto
    then have "k - idx = Suc (k - (idx + 1))" by simp
    then have tk: "take (k - idx) (sec # rest) = sec # take (k - (idx + 1)) rest"
      by (simp only: take_Suc_Cons)
    show ?thesis
    proof (cases "raises idx")
      case None
      let ?m = "members @ [(docx_name sec, create_section_document sec)]"
      let ?sp = "emit (Status (Processed idx n (safe_title sec)))
                 (emit (Progress (percent_complete idx n))
                   (sp\<lparr>files := (files sp)(zp \<mapsto> Zip ?m)\<rparr>))"
      have "fst (zip_loop flag raises zp n (idx + 1) rest ?m ?sp) \<and>
         files (snd (zip_loop flag raises zp n (idx + 1) rest ?m ?sp)) zp
           = Some (Zip (?m @ written raises (idx + 1) (take (k - (idx + 1)) rest)))"
        using Cons.prems lt by (intro Cons.IH) (auto simp: emit_fields)
      with None nf show ?thesis by (simp add: tk)
    next
      case (Some msg)
      let ?sp = "emit (Status (Error_processing (safe_title sec) msg)) sp"
      have "fst (zip_loop flag raises zp n (idx + 1) rest members ?sp) \<and>
         files (snd (zip_loop flag raises zp n (idx + 1) rest members ?sp)) zp
           = Some (Zip (members @ written raises (idx + 1) (take (k - (idx + 1)) rest)))"
        using Cons.prems lt by (intro Cons.IH) (auto simp: emit_fields)
      with Some nf show ?thesis by (simp add: tk)
    qed
  qed
qed

text \<open>
  C2, as the code has it: when the flag is first seen set at the checkpoint before
  section \<open>k\<close>, \<open>_create_zip_archive\<close> returns \<open>None\<close>, and the file at the final path
  \<open><stem>_sections.zip\<close> exists: it is the archive of the sections written before that
  checkpoint. The archive is opened at its final path and nothing removes it.
\<close>

theorem archive_left_on_cancel:
  assumes "1 \<le> k" and "k \<le> length (sections sp)"
    and "\<forall>i. 1 \<le> i \<and> i < k \<longrightarrow> \<not> flag (BeforeSection i)" and "flag (BeforeSection k)"
  shows "fst (create_zip_archive flag raises output_dir sp) = None \<and>
         files (snd (create_zip_archive flag raises output_dir sp)) (zip_path_of output_dir sp)
           = Some (Zip (written raises 1 (take (k - 1) (sections sp))))"
proof -
  let ?zp = "zip_path_of output_dir sp"
  let ?sp = "sp\<lparr>files := (files sp)(?zp \<mapsto> Zip [])\<rparr>"
  let ?r = "zip_loop flag raises ?zp (length (sections sp)) 1 (sections sp) [] ?sp"
  have "fst ?r \<and> files (snd ?r) ?zp
      = Some (Zip ([] @ written raises 1 (take (k - 1) (sections sp))))"
    using assms by (intro zip_loop_cancel) auto
  then show ?thesis by (simp add: create_zip_archive_def Let_def)
qed

lemmas pack_eval =
  create_zip_archive_def zip_path_of_def splitter_with_def new_splitter_def section_A_def
  section_B_def section_C_def set_at_section_def no_error_def emit_def docx_name_def Let_def

theorem archive_left_on_cancel_witness:
  "fst (create_zip_archive (set_at_section 2) no_error [ustr ''out'']
          (splitter_with [section_A, section_B])) = None \<and>
   files (snd (create_zip_archive (set_at_section 2) no_error [ustr ''out'']
          (splitter_with [section_A, section_B])))
       (zip_path_of [ustr ''out''] (splitter_with [section_A, section_B]))
     = Some (Zip [(docx_name section_A, create_section_document section_A)])"
  using archive_left_on_cancel [of 2 "splitter_with [section_A, section_B]" "set_at_section 2"
      no_error "[ustr ''out'']"]
  by (simp add: splitter_with_def set_at_section_def no_error_def)

text \<open>
  Two sections, the flag set after the first is written: \<open>None\<close> is returned and the
  archive with the one member \<open>A.docx\<close> is at the final path.
\<close>

theorem partial_archive_at_final_path:
  "fst (create_zip_archive (set_at_section 2) no_error [ustr ''out'']
          (splitter_with [section_A, section_B])) = None \<and>
   files (snd (create_zip_archive (set_at_section 2) no_error [ustr ''out'']
          (splitter_with [section_A, section_B])))
       [ustr ''out'', ustr ''input_sections.zip'']
     = Some (Zip [(ustr ''A.docx'', [Heading (ustr ''A'') 3, Body (normal (ustr ''a''))])])"
  by (simp add: pack_eval create_section_document_def normal_def ustr_def strip_def isspace_def)

section \<open>The progress values\<close>

lemma progress_values_append:
  "progress_values (xs @ ys) = progress_values xs @ progress_values ys"
  by (induction xs rule: progress_values.induct) simp_all

lemma zip_loop_progress:
  "progress_values (events (snd (zip_loop flag raises zp n idx secs members sp)))
     = progress_values (events sp) @
       map (\<lambda>i. percent_complete i n)
         (filter (\<lambda>i. raises i = None)
           (takeWhile (\<lambda>i. \<not> flag (BeforeSection i)) [idx..<idx + length secs]))"
proof (induction secs arbitrary: idx members sp)
  case Nil
  then show ?case by simp
next
  case (Cons sec rest)
  have u: "[idx..<idx + length (sec # rest)] = idx # [idx + 1..<idx + 1 + length rest]"
    by (subst upt_rec) simp
  show ?case
  proof (cases "flag (BeforeSection idx)")
    case True
    then show ?thesis unfolding u by (simp add: emit_fields progress_values_append)
  next
    case False
    show ?thesis
    proof (cases "raises idx")
      case None
      with False show ?thesis
        unfolding u
        by (simp add: Cons.IH emit_fields progress_values_append del: upt_Suc)
    next
      case (Some msg)
      with False show ?thesis
        unfolding u
        by (simp add: Cons.IH emit_fields progress_values_append del: upt_Suc)
    qed
  qed
qed

lemma save_loop_progress:
  "progress_values (events (snd (save_loop flag raises out n idx secs sp)))
     = progress_values (events sp) @
       map (\<lambda>i. percent_complete i n)
         (filter (\<lambda>i. raises i = None)
           (takeWhile (\<lambda>i. \<not> flag (BeforeSection i)) [idx..<idx + length secs]))"
proof (induction secs arbitrary: idx  sp)
  case Nil
  then show ?case by simp
next
  case (Cons sec rest)
  have u: "[idx..<idx + length (sec # rest)] = idx # [idx + 1..<idx + 1 + length rest]"
    by (subst upt_rec) simp
  show ?case
  proof (cases "flag (BeforeSection idx)")
    case True
    then show ?thesis unfolding u by (simp add: emit_fields progress_values_append)
  next
    case False
    show ?thesis
    proof (cases "raises idx")
      case None
      with False show ?thesis
        unfolding u
        by (simp add: Cons.IH emit_fields progress_values_append del: upt_Suc)
    next
      case (Some msg)
      with False show ?thesis
        unfolding u
        by (simp add: Cons.IH emit_fields progress_values_append del: upt_Suc)
    qed
  qed
qed

lemma create_zip_archive_progress:
  "progress_values (events (snd (create_zip_archive flag raises output_dir sp)))
     = progress_values (events sp) @
       map (\<lambda>i. percent_complete i (length (sections sp)))
         (filter (\<lambda>i. raises i = None)
           (takeWhile (\<lambda>i. \<not> flag (BeforeSection i)) [1..<1 + length (sections sp)]))"
proof -
  let ?zp = "zip_path_of output_dir sp"
  let ?sp = "sp\<lparr>files := (files sp)(?zp \<mapsto> Zip [])\<rparr>"
  note l = zip_loop_progress [of flag raises ?zp "length (sections sp)" 1 "sections sp" "[]" ?sp]
  show ?thesis
    using l unfolding create_zip_archive_def Let_def
    by (simp add: emit_fields progress_values_append del: upt_Suc)
qed

lemma save_individual_files_progress:
  "progress_values (events (snd (save_individual_files flag raises output_dir sp)))
     = progress_values (events sp) @
       map (\<lambda>i. percent_complete i (length (sections sp)))
         (filter (\<lambda>i. raises i = None)
           (takeWhile (\<lambda>i. \<not> flag (BeforeSection i)) [1..<1 + length (sections sp)]))"
proof -
  note l = save_loop_progress [of flag raises output_dir "length (sections sp)" 1 "sections sp" sp]
  show ?thesis
    using l unfolding save_individual_files_def Let_def
    by (simp add: emit_fields progress_values_append del: upt_Suc)
qed

lemmas fp_eval = fp_round_def fp_times_def pow2_le_def floor_log2.simps Let_def

lemma percent_1_3: "percent_complete 1 3 = 33"
proof -
  have a: "fp_round 1 3 = (6004799503160661, - 54)" by (simp add: fp_eval)
  have b: "fp_times (6004799503160661, - 54) 100 = (4691249611844266, - 47)"
    by (simp add: fp_eval)
  show ?thesis unfolding percent_complete_def a b by (simp add: fp_trunc_def)
qed

lemma percent_2_3: "percent_complete 2 3 = 66"
proof -
  have a: "fp_round 2 3 = (6004799503160661, - 53)" by (simp add: fp_eval)
  have b: "fp_times (6004799503160661, - 53) 100 = (4691249611844266, - 46)"
    by (simp add: fp_eval)
  show ?thesis unfolding percent_complete_def a b by (simp add: fp_trunc_def)
qed

lemma fp_round_same: "0 < n \<Longrightarrow> fp_round n n = (2 ^ 52, - 52)"
  by (simp add: fp_round_def pow2_le_def Let_def)

lemma percent_all: "0 < n \<Longrightarrow> percent_complete n n = 100"
proof -
  assume "0 < n"
  then have a: "fp_round n n = (4503599627370496, - 52)" by (simp add: fp_round_same)
  have b: "fp_times (4503599627370496, - 52) 100 = (7036874417766400, - 46)"
    by (simp add: fp_eval)
  show ?thesis unfolding percent_complete_def a b by (simp add: fp_trunc_def)
qed

text \<open>
  C5, as the code has it: in every run, in archive mode and in file mode alike,
  canceled or not, the values handed to the progress callback are, in order,
  \<open>int((idx / total_sections) * 100)\<close> for the sections \<open>idx\<close> that are reached before
  the flag is seen set and whose \<open>try\<close> block ends without an exception: the percentage
  with its fraction cut off, not rounded to the nearest integer. After the last of the
  sections the value is 100.
\<close>

theorem progress_values_truncated:
  "progress_values (events (snd (create_zip_archive flag raises output_dir sp)))
     = progress_values (events sp) @
       map (\<lambda>i. percent_complete i (length (sections sp)))
         (filter (\<lambda>i. raises i = None)
           (takeWhile (\<lambda>i. \<not> flag (BeforeSection i)) [1..<1 + length (sections sp)])) \<and>
   progress_values (events (snd (save_individual_files flag raises output_dir sp)))
     = progress_values (events sp) @
       map (\<lambda>i. percent_complete i (length (sections sp)))
         (filter (\<lambda>i. raises i = None)
           (takeWhile (\<lambda>i. \<not> flag (BeforeSection i)) [1..<1 + length (sections sp)])) \<and>
   percent_complete (Suc n) (Suc n) = 100"
  using create_zip_archive_progress [of flag raises output_dir sp]
    save_individual_files_progress [of flag raises output_dir sp] percent_all [of "Suc n"]
  by simp

text \<open>
  Three sections: the second value is 66 in both modes, where \<open>2 / 3 * 100\<close> rounded
  to the nearest integer is 67.
\<close>

theorem progress_rounds_down_counterexample:
  "progress_values (events (snd (create_zip_archive never no_error [ustr ''out'']
      (splitter_with [section_A, section_B, section_C])))) = [33, 66, 100] \<and>
   progress_values (events (snd (save_individual_files never no_error [ustr ''out'']
      (splitter_with [section_A, section_B, section_C])))) = [33, 66, 100] \<and>
   map (\<lambda>i. spec_progress i 3) [1, 2, 3] = [33, 67, 100]"
proof -
  have e: "events (splitter_with [section_A, section_B, section_C]) = []"
    and n: "length (sections (splitter_with [section_A, section_B, section_C])) = 3"
    by (simp_all add: splitter_with_def new_splitter_def)
  have u: "[1..<1 + 3] = [1, 2, 3 :: nat]" by (simp add: upt_rec)
  have s: "map (\<lambda>i. spec_progress i 3) [1, 2, 3] = [33, 67, 100]"
    by (simp add: spec_progress_def round_def floor_eq_iff)
  show ?thesis
    unfolding create_zip_archive_progress save_individual_files_progress e n u s
    using percent_1_3 by (simp add: no_error_def never_def percent_2_3 percent_all)
qed

section \<open>The loop of \<open>parse_sections\<close>\<close>

lemma parse_loop_append:
  "parse_loop hl t flag idx (xs @ ys) st =
     (case parse_loop hl t flag idx xs st of
        Return (Finished st') \<Rightarrow> parse_loop hl t flag (idx + length xs) ys st'
      | Return (Canceled_at i) \<Rightarrow> Return (Canceled_at i)
      | Raise e \<Rightarrow> Raise e
      | Never_returns \<Rightarrow> Never_returns)"
  by (induction xs arbitrary: idx st) (simp_all split: outcome.splits loop_exit.splits)

lemma add_content_fields:
  "section_refs (add_content r xs st) = section_refs st"
  "current_section (add_content r xs st) = current_section st"
  "used_titles (add_content r xs st) = used_titles st"
  "length (objects (add_content r xs st)) = length (objects st)"
  by (simp_all add: add_content_def)

lemma add_content_Nil: "r < length (objects st) \<Longrightarrow> add_content r [] st = st"
  by (simp add: add_content_def)

lemma add_content_add:
  "r < length (objects st) \<Longrightarrow>
   add_content r ys (add_content r xs st) = add_content r (xs @ ys) st"
  by (simp add: add_content_def)

lemma parse_paragraph_content:
  assumes "get_heading_level hl para \<noteq> Some t" and "current_section st = Some r"
  shows "parse_paragraph hl t st idx para = Return (add_content r [para] st)"
  using assms by (simp add: parse_paragraph_def add_content_def)

lemma parse_loop_content:
  assumes "list_all (\<lambda>p. get_heading_level hl p \<noteq> Some t) xs"
    and "current_section st = Some r" and "r < length (objects st)"
  shows "parse_loop hl t never idx xs st = Return (Finished (add_content r xs st))"
  using assms
proof (induction xs arbitrary: idx st)
  case Nil
  then show ?case by (simp add: add_content_Nil)
next
  case (Cons p ps)
  from Cons.prems have p: "get_heading_level hl p \<noteq> Some t"
    and ps: "list_all (\<lambda>p. get_heading_level hl p \<noteq> Some t) ps" by simp_all
  have "parse_loop hl t never (idx + 1) ps (add_content r [p] st)
      = Return (Finished (add_content r ps (add_content r [p] st)))"
    using ps Cons.prems(2,3) by (intro Cons.IH) (simp_all add: add_content_fields)
  moreover have "never (Parsing idx) = False" by (simp add: never_def)
  ultimately show ?case
    using Cons.prems(2,3) p
    by (simp add: parse_paragraph_content add_content_add)
qed

lemma parse_loop_no_section:
  assumes "list_all (\<lambda>p. get_heading_level hl p \<noteq> Some t) xs"
    and "current_section st = None"
  shows "parse_loop hl t never idx xs st = Return (Finished st)"
  using assms
proof (induction xs arbitrary: idx)
  case Nil
  then show ?case by simp
next
  case (Cons p ps)
  from Cons.prems have "parse_paragraph hl t st idx p = Return st"
    by (simp add: parse_paragraph_def)
  moreover have "never (Parsing idx) = False" by (simp add: never_def)
  moreover from Cons have "parse_loop hl t never (idx + 1) ps st = Return (Finished st)"
    by simp
  ultimately show ?case by simp
qed

lemma section_list_ex:
  "xs \<noteq> [] \<Longrightarrow> list_all (\<lambda>p. strip (para_text p) \<noteq> []) xs
     \<Longrightarrow> list_ex (\<lambda>p. strip (para_text p) \<noteq> []) xs"
  by (cases xs) simp_all

lemma section_not_list_ex:
  "list_all (\<lambda>p. strip (para_text p) = []) xs
     \<Longrightarrow> \<not> list_ex (\<lambda>p. strip (para_text p) \<noteq> []) xs"
  by (induction xs) simp_all

lemma close_section_None: "current_section st = None \<Longrightarrow> close_section st e = Return st"
  by (simp add: close_section_def)

lemma close_section_keep:
  assumes "current_section st = Some r" and "r < length (objects st)"
    and "list_ex (\<lambda>p. strip (para_text p) \<noteq> []) (content (objects st ! r))"
  shows "close_section st e =
    Return (st\<lparr>objects := (objects st)[r := (objects st ! r)\<lparr>end_index := Some e\<rparr>]\<rparr>)"
  using assms by (simp add: close_section_def Let_def)

lemma close_section_drop:
  assumes "current_section st = Some r" and "r < length (objects st)"
    and "\<not> list_ex (\<lambda>p. strip (para_text p) \<noteq> []) (content (objects st ! r))"
    and "r \<in> set (section_refs st)"
  shows "close_section st e =
    Return (st\<lparr>objects := (objects st)[r := (objects st ! r)\<lparr>end_index := Some e\<rparr>],
               section_refs := remove1 r (section_refs st)\<rparr>)"
  using assms by (simp add: close_section_def Let_def)

lemma parse_paragraph_heading:
  assumes "get_heading_level hl h = Some t" and "strip (para_text h) \<noteq> []"
    and "close_section st (int idx - 1) = Return st1"
    and "ensure_unique (sanitize (para_text h)) (used_titles st1) = Some (u, used)"
  shows "parse_paragraph hl t st idx h =
    Return (st1\<lparr>objects := objects st1 @
                  [\<lparr>title = para_text h, safe_title = u, level = t, content = [],
                    start_index = idx, end_index = None\<rparr>],
                section_refs := section_refs st1 @ [length (objects st1)],
                current_section := Some (length (objects st1)),
                used_titles := used\<rparr>)"
  using assms by (simp add: parse_paragraph_def)

lemma parse_sections_unfold:
  "parse_sections flag t sp0 =
     (case parse_loop (heading_levels (clean_document flag t (emit (Status (Parsing_at t)) sp0)))
             t flag 0 (doc (clean_document flag t (emit (Status (Parsing_at t)) sp0)))
             \<lparr>objects = sections sp0, section_refs = [0..<length (sections sp0)],
                current_section = None, used_titles = {||}\<rparr> of
        Return (Canceled_at idx) \<Rightarrow>
          Return (emit (Status Canceled_during_parsing)
            (clean_document flag t (emit (Status (Parsing_at t)) sp0))\<lparr>sections := []\<rparr>)
      | Return (Finished st) \<Rightarrow>
          (case close_section st
                  (int (length (doc (clean_document flag t (emit (Status (Parsing_at t)) sp0)))) - 1) of
             Return st' \<Rightarrow>
               if flag Parsed
               then Return (emit (Status Canceled)
                  (clean_document flag t (emit (Status (Parsing_at t)) sp0))\<lparr>sections := []\<rparr>)
               else Return (emit (Status (Found_sections (length (section_refs st')) t))
                  (clean_document flag t (emit (Status (Parsing_at t)) sp0))
                    \<lparr>sections := map (\<lambda>r. objects st' ! r) (section_refs st')\<rparr>)
           | Raise e \<Rightarrow> Raise e
           | Never_returns \<Rightarrow> Never_returns)
      | Raise e \<Rightarrow> Raise e
      | Never_returns \<Rightarrow> Never_returns)"
  by (simp add: parse_sections_def Let_def clean_document_fields emit_fields)

text \<open>
  What \<open>parse_sections\<close> returns, when it is not canceled, on a cleaned document that
  the loop runs through to the state \<open>st\<close> and whose last section is kept or absent.
\<close>

lemma parse_sections_result:
  assumes "clean_document never t (emit (Status (Parsing_at t)) sp0) = sp"
    and "parse_loop (heading_levels sp) t never 0 (doc sp)
           \<lparr>objects = sections sp0, section_refs = [0..<length (sections sp0)],
              current_section = None, used_titles = {||}\<rparr> = Return (Finished st)"
    and "close_section st (int (length (doc sp)) - 1) = Return st'"
  shows "\<exists>sp'. parse_sections never t sp0 = Return sp' \<and>
           sections sp' = map (\<lambda>r. objects st' ! r) (section_refs st')"
  using assms(2,3)
  by (simp add: parse_sections_unfold assms(1) never_False emit_fields)

section \<open>Sections around a blank heading\<close>

lemma body_kept:
  assumes "list_all (\<lambda>p. strip (para_text p) \<noteq> [] \<and> (\<forall>l. get_heading_level hl p = Some l \<longrightarrow> t < l)) xs"
  shows "list_all (kept hl t) xs" and "list_all (\<lambda>p. get_heading_level hl p \<noteq> Some t) xs"
    and "list_all (\<lambda>p. strip (para_text p) \<noteq> []) xs"
  using assms by (auto simp: list_all_iff kept_def split: option.splits)

text \<open>
  C1, as the code has it. The document is, in order: paragraphs of text (or none), the
  heading \<open>A\<close>, one or more paragraphs of text, a blank heading, one or more paragraphs
  of text, the heading \<open>B\<close>, one or more paragraphs of text. The three headings are at
  the target level; every paragraph of text has text that is not blank and is no heading
  at the target level or above it (it has no heading style, or one of a deeper level).
  Then \<open>parse_sections\<close> gives two sections, titled \<open>A\<close> and \<open>B\<close>; the blank
  heading gives none, and the text after the blank heading is in the content of section
  \<open>A\<close>, after the text of \<open>A\<close> itself: \<open>_clean_document\<close> has removed the blank
  heading before the sections are cut. The text before \<open>A\<close> is in no section.
\<close>

theorem blank_heading_text_joins_previous_section:
  assumes "sections sp = []"
    and "doc sp = pre @ hA # bodyA @ hE # bodyE @ hB # bodyB"
    and "get_heading_level (heading_levels sp) hA = Some t"
    and "get_heading_level (heading_levels sp) hE = Some t"
    and "get_heading_level (heading_levels sp) hB = Some t"
    and "strip (para_text hA) \<noteq> []" and "strip (para_text hE) = []"
    and "strip (para_text hB) \<noteq> []"
    and "bodyA \<noteq> []" and "bodyE \<noteq> []" and "bodyB \<noteq> []"
    and "list_all (\<lambda>p. strip (para_text p) \<noteq> [] \<and>
           (\<forall>l. get_heading_level (heading_levels sp) p = Some l \<longrightarrow> t < l))
         (pre @ bodyA @ bodyE @ bodyB)"
  shows "\<exists>sp'. parse_sections never t sp = Return sp' \<and>
           map title (sections sp') = [para_text hA, para_text hB] \<and>
           map content (sections sp') = [bodyA @ bodyE, bodyB]"
proof -
  define hl where "hl = heading_levels sp"
  define n where "n = length pre"
  let ?body = "\<lambda>p. strip (para_text p) \<noteq> [] \<and> (\<forall>l. get_heading_level hl p = Some l \<longrightarrow> t < l)"
  from assms(12) have bP: "list_all ?body pre" and bA: "list_all ?body bodyA"
    and bE: "list_all ?body bodyE" and bB: "list_all ?body bodyB" by (simp_all add: hl_def)
  note kP = body_kept [OF bP] and kA = body_kept [OF bA] and kE = body_kept [OF bE]
    and kB = body_kept [OF bB]
  have khA: "kept hl t hA" and khB: "kept hl t hB"
    using assms(3,5,6,8) by (simp_all add: kept_def hl_def)
  \<comment> \<open>the cleaning takes the blank heading out\<close>
  let ?sp0 = "emit (Status (Parsing_at t)) sp"
  define sp1 where "sp1 = ?sp0\<lparr>doc := (pre @ hA # bodyA) @ bodyE @ hB # bodyB\<rparr>"
  have "clean_document never t ?sp0 = ?sp0\<lparr>doc := (pre @ hA # bodyA) @ bodyE @ hB # bodyB\<rparr>"
  proof (rule clean_document_one_blank_heading)
    show "doc ?sp0 = (pre @ hA # bodyA) @ hE # bodyE @ hB # bodyB"
      by (simp add: emit_fields assms(2))
    show "list_all (kept (heading_levels ?sp0) t) (pre @ hA # bodyA)"
      using khA kP(1) kA(1) by (simp add: emit_fields hl_def)
    show "list_all (kept (heading_levels ?sp0) t) (bodyE @ hB # bodyB)"
      using khB kE(1) kB(1) by (simp add: emit_fields hl_def)
    show "get_heading_level (heading_levels ?sp0) hE = Some t"
      by (simp add: emit_fields assms(4))
    show "strip (para_text hE) = []" by (rule assms(7))
    show "bodyE @ hB # bodyB = [] \<or> strip (para_text (hd (bodyE @ hB # bodyB))) \<noteq> []"
      using kE(3) assms(10) by (cases bodyE) simp_all
  qed
  then have clean: "clean_document never t ?sp0 = sp1" by (simp add: sp1_def)
  have sp1: "heading_levels sp1 = hl" "doc sp1 = pre @ [hA] @ (bodyA @ bodyE) @ [hB] @ bodyB"
    by (simp_all add: sp1_def emit_fields hl_def)
  \<comment> \<open>the loop\<close>
  have s0: "parse_loop hl t never 0 pre initial_state = Return (Finished initial_state)"
    using kP(2) by (rule parse_loop_no_section) (simp add: initial_state_def)
  obtain uA where uA: "ensure_unique (sanitize (para_text hA)) {||} = Some (uA, finsert uA {||})"
    using ensure_unique_returns [of "sanitize (para_text hA)" "{||}"] by blast
  define SA :: Section where
    "SA = \<lparr>title = para_text hA, safe_title = uA, level = t, content = [], start_index = n,
            end_index = None\<rparr>"
  define st1 :: parse_state where
    "st1 = \<lparr>objects = [SA], section_refs = [0], current_section = Some 0,
             used_titles = finsert uA {||}\<rparr>"
  have s1: "parse_paragraph hl t initial_state n hA = Return st1"
    using parse_paragraph_heading [of hl hA t initial_state n initial_state uA "finsert uA {||}"]
      assms(3,6) uA
    by (simp add: hl_def initial_state_def st1_def SA_def close_section_None)
  define st2 where "st2 = add_content 0 (bodyA @ bodyE) st1"
  have s2: "parse_loop hl t never (n + 1) (bodyA @ bodyE) st1 = Return (Finished st2)"
    unfolding st2_def using kA(2) kE(2)
    by (intro parse_loop_content) (simp_all add: st1_def)
  have ne: "list_ex (\<lambda>p. strip (para_text p) \<noteq> []) (bodyA @ bodyE)"
    using kA(3) kE(3) assms(9) by (intro section_list_ex) simp_all
  define eA where "eA = int (n + 1 + length (bodyA @ bodyE)) - 1"
  define st2c :: parse_state where
    "st2c = \<lparr>objects = [SA\<lparr>content := bodyA @ bodyE, end_index := Some eA\<rparr>],
              section_refs = [0], current_section = Some 0, used_titles = finsert uA {||}\<rparr>"
  have c2: "close_section st2 eA = Return st2c"
    using ne close_section_keep [of st2 0 eA]
    by (simp add: st2_def st2c_def st1_def add_content_def SA_def)
  obtain uB where uB: "ensure_unique (sanitize (para_text hB)) (finsert uA {||})
      = Some (uB, finsert uB (finsert uA {||}))"
    using ensure_unique_returns [of "sanitize (para_text hB)" "finsert uA {||}"] by blast
  define SB :: Section where
    "SB = \<lparr>title = para_text hB, safe_title = uB, level = t, content = [],
            start_index = n + 1 + length (bodyA @ bodyE), end_index = None\<rparr>"
  define st3 :: parse_state where
    "st3 = \<lparr>objects = [SA\<lparr>content := bodyA @ bodyE, end_index := Some eA\<rparr>, SB],
             section_refs = [0, 1], current_section = Some 1,
             used_titles = finsert uB (finsert uA {||})\<rparr>"
  have s3: "parse_paragraph hl t st2 (n + 1 + length (bodyA @ bodyE)) hB = Return st3"
    using parse_paragraph_heading [of hl hB t st2 "n + 1 + length (bodyA @ bodyE)" st2c uB
        "finsert uB (finsert uA {||})"] assms(5,8) uB c2
    by (simp add: hl_def st2c_def st3_def SB_def eA_def)
  define st4 where "st4 = add_content 1 bodyB st3"
  have s4: "parse_loop hl t never (n + 1 + length (bodyA @ bodyE) + 1) bodyB st3
      = Return (Finished st4)"
    unfolding st4_def using kB(2)
    by (intro parse_loop_content) (simp_all add: st3_def)
  have loop: "parse_loop hl t never 0 (pre @ [hA] @ (bodyA @ bodyE) @ [hB] @ bodyB) initial_state
      = Return (Finished st4)"
    using s0 s1 s2 s3 s4
    by (simp add: parse_loop_append never_False n_def del: append_assoc)
  \<comment> \<open>the last section is closed and kept\<close>
  have neB: "list_ex (\<lambda>p. strip (para_text p) \<noteq> []) bodyB"
    using kB(3) assms(11) by (rule section_list_ex [rotated])
  define st5 :: parse_state where
    "st5 = st4\<lparr>objects := (objects st4)[1 := (objects st4 ! 1)
              \<lparr>end_index := Some (int (length (doc sp1)) - 1)\<rparr>]\<rparr>"
  have c5: "close_section st4 (int (length (doc sp1)) - 1) = Return st5"
    using neB close_section_keep [of st4 1 "int (length (doc sp1)) - 1"]
    by (simp add: st5_def st4_def st3_def add_content_def SB_def)
  have "\<exists>sp'. parse_sections never t sp = Return sp' \<and>
           sections sp' = map (\<lambda>r. objects st5 ! r) (section_refs st5)"
  proof (rule parse_sections_result [OF clean])
    show "parse_loop (heading_levels sp1) t never 0 (doc sp1)
       \<lparr>objects = sections sp, section_refs = [0..<length (sections sp)],
          current_section = None, used_titles = {||}\<rparr> = Return (Finished st4)"
      using loop by (simp add: sp1 assms(1) initial_state_def)
    show "close_section st4 (int (length (doc sp1)) - 1) = Return st5" by (rule c5)
  qed
  moreover have "map title (map (\<lambda>r. objects st5 ! r) (section_refs st5))
      = [para_text hA, para_text hB]"
    by (simp add: st5_def st4_def st3_def add_content_def SA_def SB_def)
  moreover have "map content (map (\<lambda>r. objects st5 ! r) (section_refs st5))
      = [bodyA @ bodyE, bodyB]"
    by (simp add: st5_def st4_def st3_def add_content_def SA_def SB_def)
  ultimately show ?thesis by auto
qed

lemmas doc_eval2 =
  new_splitter_def heading3_def normal_def ustr_def get_heading_level_def strip_def isspace_def

theorem blank_heading_text_joins_previous_section_witness:
  "\<exists>sp'. parse_sections never 3 (new_splitter doc_A_blank_B) = Return sp' \<and>
     map title (sections sp') = [ustr ''A'', ustr ''B''] \<and>
     map content (sections sp')
       = [[normal (ustr ''a''), normal (ustr ''x'')], [normal (ustr ''b'')]]"
  using blank_heading_text_joins_previous_section [of "new_splitter doc_A_blank_B" "[]"
      "heading3 (ustr ''A'')" "[normal (ustr ''a'')]" "heading3 (ustr '' '')"
      "[normal (ustr ''x'')]" "heading3 (ustr ''B'')" "[normal (ustr ''b'')]" 3]
  by (simp add: doc_A_blank_B_def doc_eval2)

text \<open>
  The document \<open>A\<close>, \<open>a\<close>, blank heading, \<open>x\<close>, \<open>B\<close>, \<open>b\<close>: the text \<open>x\<close> after
  the blank heading is in the content of section \<open>A\<close>.
\<close>

theorem text_after_blank_heading_not_dropped:
  "(case parse_sections never 3 (new_splitter doc_A_blank_B) of
      Return sp' \<Rightarrow> map (\<lambda>s. (title s, map para_text (content s))) (sections sp')
    | Raise e \<Rightarrow> []
    | Never_returns \<Rightarrow> [])
   = [(ustr ''A'', [ustr ''a'', ustr ''x'']), (ustr ''B'', [ustr ''b''])]"
  by (simp add: doc_A_blank_B_def doc_eval2 never_def emit_def parse_sections_def
      clean_document_def parse_paragraph_def close_section_def remove_paragraph_def
      sanitize_def sanitize_filename_def slice_to_def strip_chars_def invalid_chars_def
      is_dot_def ensure_unique_def ensure_unique_loop.simps Let_def)

section \<open>Names of discarded sections\<close>

lemma map_update_same:
  assumes "f (g (xs ! r)) = f (xs ! r)"
  shows "map f (xs[r := g (xs ! r)]) = map f xs"
proof (cases "r < length xs")
  case True
  have "map f (xs[r := g (xs ! r)]) = (map f xs)[r := f (g (xs ! r))]" by (rule map_update)
  also have "\<dots> = (map f xs)[r := (map f xs) ! r]" using True assms by simp
  also have "\<dots> = map f xs" by (rule list_update_id)
  finally show ?thesis .
next
  case False
  then have "xs[r := g (xs ! r)] = xs" by (intro list_update_beyond) simp
  then show ?thesis by (simp only:)
qed

lemma titles_used_cong:
  "map safe_title (objects st') = map safe_title (objects st) \<Longrightarrow>
   used_titles st' = used_titles st \<Longrightarrow> titles_used st' = titles_used st"
  by (simp only: titles_used_def)

lemma close_section_titles:
  assumes "close_section st e = Return st'"
  shows "map safe_title (objects st') = map safe_title (objects st) \<and>
         used_titles st' = used_titles st"
proof (cases "current_section st")
  case None
  with assms show ?thesis by (simp add: close_section_def)
next
  case (Some r)
  define objs where "objs = (objects st)[r := (objects st ! r)\<lparr>end_index := Some e\<rparr>]"
  have m: "map safe_title objs = map safe_title (objects st)"
    unfolding objs_def by (rule map_update_same) simp
  have "st' = st\<lparr>objects := objs\<rparr> \<or>
        st' = st\<lparr>objects := objs, section_refs := remove1 r (section_refs st)\<rparr>"
    using assms Some unfolding close_section_def Let_def objs_def
    by (auto split: if_splits)
  with m show ?thesis by auto
qed

lemma parse_paragraph_no_section:
  "get_heading_level hl p \<noteq> Some t \<Longrightarrow> current_section st = None \<Longrightarrow>
   parse_paragraph hl t st idx p = Return st"
  by (simp add: parse_paragraph_def)

lemma parse_paragraph_raise:
  "get_heading_level hl p = Some t \<Longrightarrow> close_section st (int idx - 1) = Raise e \<Longrightarrow>
   parse_paragraph hl t st idx p = Raise e"
  by (simp add: parse_paragraph_def)

lemma close_section_returns_or_raises: "close_section st e \<noteq> Never_returns"
  by (simp add: close_section_def Let_def split: option.splits)

lemma parse_paragraph_blank_heading:
  "get_heading_level hl p = Some t \<Longrightarrow> close_section st (int idx - 1) = Return st1 \<Longrightarrow>
   strip (para_text p) = [] \<Longrightarrow> parse_paragraph hl t st idx p = Return st1"
  by (simp add: parse_paragraph_def)

lemma parse_paragraph_titles:
  assumes "parse_paragraph hl t st idx p = Return st'"
  shows "used_titles st |\<subseteq>| used_titles st' \<and> (titles_used st \<longrightarrow> titles_used st')"
proof (cases "get_heading_level hl p = Some t")
  case False
  show ?thesis
  proof (cases "current_section st")
    case None
    with False have "parse_paragraph hl t st idx p = Return st"
      by (rule parse_paragraph_no_section)
    with assms have "st' = st" by simp
    then show ?thesis by simp
  next
    case (Some r)
    with False have "parse_paragraph hl t st idx p = Return (add_content r [p] st)"
      by (rule parse_paragraph_content)
    with assms have st': "st' = add_content r [p] st" by simp
    have "map safe_title ((objects st)[r := (objects st ! r)\<lparr>content := content (objects st ! r) @ [p]\<rparr>])
      = map safe_title (objects st)"
      by (rule map_update_same) simp
    then have "map safe_title (objects st') = map safe_title (objects st)"
      by (simp add: st' add_content_def)
    moreover have "used_titles st' = used_titles st" by (simp add: st' add_content_fields)
    ultimately have "titles_used st' = titles_used st" by (rule titles_used_cong)
    with \<open>used_titles st' = used_titles st\<close> show ?thesis by simp
  qed
next
  case True
  show ?thesis
  proof (cases "close_section st (int idx - 1)")
    case (Raise e)
    with True have "parse_paragraph hl t st idx p = Raise e" by (rule parse_paragraph_raise)
    with assms show ?thesis by simp
  next
    case Never_returns
    then show ?thesis using close_section_returns_or_raises by blast
  next
    case (Return st1)
    note t1 = close_section_titles [OF Return]
    show ?thesis
    proof (cases "strip (para_text p) = []")
      case blank: True
      with True Return have "parse_paragraph hl t st idx p = Return st1"
        by (rule parse_paragraph_blank_heading)
      with assms have "st' = st1" by simp
      with t1 have m: "map safe_title (objects st') = map safe_title (objects st)"
        and u: "used_titles st' = used_titles st" by simp_all
      from m u have "titles_used st' = titles_used st" by (rule titles_used_cong)
      with u show ?thesis by simp
    next
      case False
      obtain u where
        u: "ensure_unique (sanitize (para_text p)) (used_titles st1)
              = Some (u, finsert u (used_titles st1))"
        using ensure_unique_returns [of "sanitize (para_text p)" "used_titles st1"] by blast
      define new where "new = \<lparr>title = para_text p, safe_title = u, level = t, content = [],
                      start_index = idx, end_index = None\<rparr>"
      have "parse_paragraph hl t st idx p =
        Return (st1\<lparr>objects := objects st1 @ [new],
                  section_refs := section_refs st1 @ [length (objects st1)],
                  current_section := Some (length (objects st1)),
                  used_titles := finsert u (used_titles st1)\<rparr>)"
        unfolding new_def using True False Return u by (rule parse_paragraph_heading)
      with assms have st': "st' = st1\<lparr>objects := objects st1 @ [new],
                  section_refs := section_refs st1 @ [length (objects st1)],
                  current_section := Some (length (objects st1)),
                  used_titles := finsert u (used_titles st1)\<rparr>"
        by simp
      have "safe_title new = u" by (simp add: new_def)
      with t1 have "used_titles st' = finsert u (used_titles st)"
        and "map safe_title (objects st') = map safe_title (objects st) @ [u]"
        unfolding st' by simp_all
      then show ?thesis unfolding titles_used_def by auto
    qed
  qed
qed

lemma parse_loop_titles:
  assumes "parse_loop hl t flag idx ps st = Return (Finished st')"
  shows "used_titles st |\<subseteq>| used_titles st' \<and> (titles_used st \<longrightarrow> titles_used st')"
  using assms
proof (induction ps arbitrary: idx st)
  case Nil
  then show ?case by simp
next
  case (Cons p ps)
  from Cons.prems obtain st1 where 1: "parse_paragraph hl t st idx p = Return st1"
    and 2: "parse_loop hl t flag (idx + 1) ps st1 = Return (Finished st')"
    by (auto split: if_splits outcome.splits)
  from parse_paragraph_titles [OF 1] Cons.IH [OF 2] show ?case by auto
qed

lemma same_title_is_numbered:
  assumes "sections sp = []"
    and "doc sp = h1 # blanks @ h2 # body"
    and "get_heading_level (heading_levels sp) h1 = Some t"
    and "get_heading_level (heading_levels sp) h2 = Some t"
    and "strip (para_text h1) \<noteq> []" and "strip (para_text h2) \<noteq> []"
    and "sanitize (para_text h2) = sanitize (para_text h1)"
    and "list_all (\<lambda>p. strip (para_text p) = [] \<and>
           get_heading_level (heading_levels sp) p = None) blanks"
    and "body \<noteq> []"
    and "list_all (\<lambda>p. strip (para_text p) \<noteq> [] \<and>
           (\<forall>l. get_heading_level (heading_levels sp) p = Some l \<longrightarrow> t < l)) body"
  shows "\<exists>sp'. parse_sections never t sp = Return sp' \<and>
           map title (sections sp') = [para_text h2] \<and>
           map safe_title (sections sp') = [numbered (sanitize (para_text h1)) 1]"
proof -
  define hl where "hl = heading_levels sp"
  define b where "b = sanitize (para_text h1)"
  note kB = body_kept [OF assms(10) [folded hl_def]]
  have kh: "kept hl t h1" "kept hl t h2"
    using assms(3,4,5,6) by (simp_all add: kept_def hl_def)
  have kbl: "list_all (kept hl t) blanks"
    and nbl: "list_all (\<lambda>p. get_heading_level hl p \<noteq> Some t) blanks"
    and bbl: "list_all (\<lambda>p. strip (para_text p) = []) blanks"
    using assms(8) by (auto simp: list_all_iff kept_def hl_def)
  \<comment> \<open>the cleaning removes nothing\<close>
  let ?sp0 = "emit (Status (Parsing_at t)) sp"
  have "list_all (kept (heading_levels ?sp0) t) (doc ?sp0)"
    using kh kbl kB(1) by (simp add: emit_fields assms(2) hl_def)
  then have clean: "clean_document never t ?sp0 = ?sp0" by (rule clean_document_kept)
  have sp0: "heading_levels ?sp0 = hl" "doc ?sp0 = [h1] @ blanks @ [h2] @ body"
    by (simp_all add: emit_fields hl_def assms(2))
  \<comment> \<open>the loop\<close>
  define S1 :: Section where
    "S1 = \<lparr>title = para_text h1, safe_title = b, level = t, content = [], start_index = 0,
            end_index = None\<rparr>"
  define st1 :: parse_state where
    "st1 = \<lparr>objects = [S1], section_refs = [0], current_section = Some 0,
             used_titles = names_upto b 1\<rparr>"
  have s1: "parse_paragraph hl t initial_state 0 h1 = Return st1"
    using parse_paragraph_heading [of hl h1 t initial_state 0 initial_state b "names_upto b 1"]
      assms(3,5) ensure_unique_empty [of b]
    by (simp add: hl_def b_def initial_state_def st1_def S1_def close_section_None)
  define st2 where "st2 = add_content 0 blanks st1"
  have s2: "parse_loop hl t never 1 blanks st1 = Return (Finished st2)"
    unfolding st2_def using nbl
    by (intro parse_loop_content) (simp_all add: st1_def)
  have nex: "\<not> list_ex (\<lambda>p. strip (para_text p) \<noteq> []) blanks"
    using bbl by (rule section_not_list_ex)
  define e1 where "e1 = int (1 + length blanks) - 1"
  define st2c :: parse_state where
    "st2c = \<lparr>objects = [S1\<lparr>content := blanks, end_index := Some e1\<rparr>],
              section_refs = [], current_section = Some 0, used_titles = names_upto b 1\<rparr>"
  have c2: "close_section st2 e1 = Return st2c"
    using nex close_section_drop [of st2 0 e1]
    by (simp add: st2_def st2c_def st1_def add_content_def S1_def)
  have u2: "ensure_unique (sanitize (para_text h2)) (names_upto b 1)
      = Some (numbered b 1, names_upto b (Suc 1))"
    using ensure_unique_names_upto [of 1 b] by (simp add: assms(7) b_def)
  define S2 :: Section where
    "S2 = \<lparr>title = para_text h2, safe_title = numbered b 1, level = t, content = [],
            start_index = 1 + length blanks, end_index = None\<rparr>"
  define st3 :: parse_state where
    "st3 = \<lparr>objects = [S1\<lparr>content := blanks, end_index := Some e1\<rparr>, S2],
             section_refs = [1], current_section = Some 1,
             used_titles = names_upto b (Suc 1)\<rparr>"
  have s3: "parse_paragraph hl t st2 (1 + length blanks) h2 = Return st3"
    using parse_paragraph_heading [of hl h2 t st2 "1 + length blanks" st2c "numbered b 1"
        "names_upto b (Suc 1)"] assms(4,6) u2 c2
    by (simp add: hl_def st2c_def st3_def S2_def e1_def)
  define st4 where "st4 = add_content 1 body st3"
  have s4: "parse_loop hl t never (1 + length blanks + 1) body st3 = Return (Finished st4)"
    unfolding st4_def using kB(2)
    by (intro parse_loop_content) (simp_all add: st3_def)
  have loop: "parse_loop hl t never 0 ([h1] @ blanks @ [h2] @ body) initial_state
      = Return (Finished st4)"
    using s1 s2 s3 s4
    by (simp add: parse_loop_append never_False del: append_assoc)
  have neB: "list_ex (\<lambda>p. strip (para_text p) \<noteq> []) body"
    using kB(3) assms(9) by (rule section_list_ex [rotated])
  define st5 :: parse_state where
    "st5 = st4\<lparr>objects := (objects st4)[1 := (objects st4 ! 1)
              \<lparr>end_index := Some (int (length (doc ?sp0)) - 1)\<rparr>]\<rparr>"
  have c5: "close_section st4 (int (length (doc ?sp0)) - 1) = Return st5"
    using neB close_section_keep [of st4 1 "int (length (doc ?sp0)) - 1"]
    by (simp add: st5_def st4_def st3_def add_content_def S2_def)
  have "\<exists>sp'. parse_sections never t sp = Return sp' \<and>
           sections sp' = map (\<lambda>r. objects st5 ! r) (section_refs st5)"
  proof (rule parse_sections_result [OF clean])
    show "parse_loop (heading_levels ?sp0) t never 0 (doc ?sp0)
       \<lparr>objects = sections sp, section_refs = [0..<length (sections sp)],
          current_section = None, used_titles = {||}\<rparr> = Return (Finished st4)"
      using loop by (simp add: sp0 assms(1) initial_state_def)
    show "close_section st4 (int (length (doc ?sp0)) - 1) = Return st5" by (rule c5)
  qed
  moreover have "map title (map (\<lambda>r. objects st5 ! r) (section_refs st5)) = [para_text h2]"
    by (simp add: st5_def st4_def st3_def add_content_def S2_def)
  moreover have "map safe_title (map (\<lambda>r. objects st5 ! r) (section_refs st5)) = [numbered b 1]"
    by (simp add: st5_def st4_def st3_def add_content_def S2_def)
  ultimately show ?thesis unfolding b_def by auto
qed


lemma sanitize_A: "sanitize (ustr ''A'') = ustr ''A''"
  by (simp add: sanitize_def sanitize_filename_def slice_to_def strip_chars_def
      invalid_chars_def is_dot_def isspace_def ustr_def)

lemma numbered_A_1: "numbered (ustr ''A'') 1 = ustr ''A_1''"
  by (simp add: numbered_def rsplit_dot_def ustr_def str_nat.simps)

lemma ensure_unique_used:
  assumes "filename |\<in>| used"
  shows "\<exists>k. 1 \<le> k \<and>
    ensure_unique filename used
      = Some (numbered filename k, finsert (numbered filename k) used) \<and>
    numbered filename k |\<notin>| used \<and>
    (\<forall>i. 1 \<le> i \<and> i < k \<longrightarrow> numbered filename i |\<in>| used)"
proof -
  have "\<exists>i. numbered filename (Suc i) |\<notin>| used"
  proof (rule ccontr)
    assume "\<not> ?thesis"
    then have "range (\<lambda>i. numbered filename (Suc i)) \<subseteq> fset used" by auto
    then have "finite (range (\<lambda>i. numbered filename (Suc i)))"
      by (rule finite_subset) simp
    moreover have "inj (\<lambda>i. numbered filename (Suc i))"
      by (rule injI) (auto dest: numbered_inj)
    ultimately have "finite (UNIV :: nat set)" by (rule finite_imageD)
    then show False by simp
  qed
  then have ex: "\<exists>k. 1 \<le> k \<and> numbered filename k |\<notin>| used"
    by (metis le_add1 plus_1_eq_Suc)
  define k where "k = (LEAST k. 1 \<le> k \<and> numbered filename k |\<notin>| used)"
  from ex have k: "1 \<le> k" "numbered filename k |\<notin>| used"
    unfolding k_def by (metis (mono_tags, lifting) LeastI_ex)+
  have below: "numbered filename i |\<in>| used" if "1 \<le> i" "i < k" for i
    using that not_less_Least [of i "\<lambda>k. 1 \<le> k \<and> numbered filename k |\<notin>| used"]
    unfolding k_def by auto
  have "ensure_unique_loop filename (numbered filename 1) (1 + 1) used
      = Some (numbered filename k)"
    using below k by (intro ensure_unique_loop_numbered) auto
  with assms have "ensure_unique_loop filename filename 1 used = Some (numbered filename k)"
    by (subst ensure_unique_loop.simps) simp
  then have "ensure_unique filename used
      = Some (numbered filename k, finsert (numbered filename k) used)"
    by (simp add: ensure_unique_def)
  with k below show ?thesis by blast
qed

lemma later_section_numbered:
  assumes "titles_used st" and "r < length (objects st)"
    and "get_heading_level hl para = Some t" and "strip (para_text para) \<noteq> []"
    and "sanitize (para_text para) = safe_title (objects st ! r)"
    and "close_section st (int idx - 1) = Return st1"
  shows "\<exists>k st'. 1 \<le> k \<and> parse_paragraph hl t st idx para = Return st' \<and>
           current_section st' = Some (length (objects st)) \<and>
           safe_title (objects st' ! length (objects st))
             = numbered (sanitize (para_text para)) k \<and>
           numbered (sanitize (para_text para)) k |\<notin>| used_titles st \<and>
           (\<forall>i. 1 \<le> i \<and> i < k \<longrightarrow>
              numbered (sanitize (para_text para)) i |\<in>| used_titles st)"
proof -
  define b where "b = sanitize (para_text para)"
  from assms(2) have "safe_title (objects st ! r) \<in> set (map safe_title (objects st))"
    by simp
  with assms(1,5) have bu: "b |\<in>| used_titles st"
    unfolding titles_used_def b_def by auto
  note c = close_section_titles [OF assms(6)]
  from c have "length (map safe_title (objects st1)) = length (map safe_title (objects st))"
    by simp
  then have len: "length (objects st1) = length (objects st)" by simp
  from bu c have "b |\<in>| used_titles st1" by simp
  then obtain k where k: "1 \<le> k"
    and u: "ensure_unique b (used_titles st1)
      = Some (numbered b k, finsert (numbered b k) (used_titles st1))"
    and nin: "numbered b k |\<notin>| used_titles st1"
    and below: "\<forall>i. 1 \<le> i \<and> i < k \<longrightarrow> numbered b i |\<in>| used_titles st1"
    using ensure_unique_used [of b "used_titles st1"] by blast
  define new where "new = \<lparr>title = para_text para, safe_title = numbered b k, level = t,
      content = [], start_index = idx, end_index = None\<rparr>"
  define st' where "st' = st1\<lparr>objects := objects st1 @ [new],
      section_refs := section_refs st1 @ [length (objects st1)],
      current_section := Some (length (objects st1)),
      used_titles := finsert (numbered b k) (used_titles st1)\<rparr>"
  have "parse_paragraph hl t st idx para = Return st'"
    unfolding st'_def new_def b_def using assms(3,4,6) u [unfolded b_def]
    by (rule parse_paragraph_heading)
  moreover have "current_section st' = Some (length (objects st))"
    by (simp add: st'_def len)
  moreover have "safe_title (objects st' ! length (objects st)) = numbered b k"
    by (simp add: st'_def len [symmetric] new_def)
  ultimately show ?thesis
    using k nin below c unfolding b_def [symmetric] by auto
qed


text \<open>
  C10, as the code has it. The loop of \<open>parse_sections\<close> never takes a name out of
  \<open>used_titles\<close>, and the safe title of every section object it has made, kept in
  \<open>self.sections\<close> or discarded, is in \<open>used_titles\<close> when the loop ends. So in any
  state of the loop, a heading with text at the target level whose sanitized title \<open>b\<close>
  is the safe title of some section object, kept or discarded, opens a section with a
  numbered title: \<open>numbered b k\<close> for the first \<open>k \<ge> 1\<close> whose numbered name is not in
  \<open>used_titles\<close>. That is \<open>b_1\<close> when \<open>b_1\<close> is free and a later number otherwise.
\<close>

theorem discarded_section_name_stays_used:
  "(parse_loop hl t flag idx0 ps st0 = Return (Finished st) \<and> titles_used st0 \<longrightarrow>
      used_titles st0 |\<subseteq>| used_titles st \<and> titles_used st) \<and>
   (titles_used st \<and> r < length (objects st) \<and>
    get_heading_level hl para = Some t \<and> strip (para_text para) \<noteq> [] \<and>
    sanitize (para_text para) = safe_title (objects st ! r) \<and>
    close_section st (int idx - 1) = Return st1 \<longrightarrow>
      (\<exists>k st'. 1 \<le> k \<and> parse_paragraph hl t st idx para = Return st' \<and>
         current_section st' = Some (length (objects st)) \<and>
         safe_title (objects st' ! length (objects st))
           = numbered (sanitize (para_text para)) k \<and>
         numbered (sanitize (para_text para)) k |\<notin>| used_titles st \<and>
         (\<forall>i. 1 \<le> i \<and> i < k \<longrightarrow>
            numbered (sanitize (para_text para)) i |\<in>| used_titles st)))"
proof -
  have 1: "parse_loop hl t flag idx0 ps st0 = Return (Finished st) \<and> titles_used st0 \<longrightarrow>
      used_titles st0 |\<subseteq>| used_titles st \<and> titles_used st"
    using parse_loop_titles [of hl t flag idx0 ps st0 st] by blast
  have 2: "titles_used st \<and> r < length (objects st) \<and>
    get_heading_level hl para = Some t \<and> strip (para_text para) \<noteq> [] \<and>
    sanitize (para_text para) = safe_title (objects st ! r) \<and>
    close_section st (int idx - 1) = Return st1 \<longrightarrow>
      (\<exists>k st'. 1 \<le> k \<and> parse_paragraph hl t st idx para = Return st' \<and>
         current_section st' = Some (length (objects st)) \<and>
         safe_title (objects st' ! length (objects st))
           = numbered (sanitize (para_text para)) k \<and>
         numbered (sanitize (para_text para)) k |\<notin>| used_titles st \<and>
         (\<forall>i. 1 \<le> i \<and> i < k \<longrightarrow>
            numbered (sanitize (para_text para)) i |\<in>| used_titles st))"
  proof (rule impI, elim conjE)
    assume "titles_used st" "r < length (objects st)"
      "get_heading_level hl para = Some t" "strip (para_text para) \<noteq> []"
      "sanitize (para_text para) = safe_title (objects st ! r)"
      "close_section st (int idx - 1) = Return st1"
    then show "\<exists>k st'. 1 \<le> k \<and> parse_paragraph hl t st idx para = Return st' \<and>
         current_section st' = Some (length (objects st)) \<and>
         safe_title (objects st' ! length (objects st))
           = numbered (sanitize (para_text para)) k \<and>
         numbered (sanitize (para_text para)) k |\<notin>| used_titles st \<and>
         (\<forall>i. 1 \<le> i \<and> i < k \<longrightarrow>
            numbered (sanitize (para_text para)) i |\<in>| used_titles st)"
      by (rule later_section_numbered)
  qed
  from 1 2 show ?thesis by (rule conjI)
qed

lemma parse_loop_heading_A:
  "parse_loop [ustr ''Heading 3'' \<mapsto> 3] 3 never 0 [heading3 (ustr ''A'')] initial_state =
     Return (Finished state_after_A)"
  by (simp add: initial_state_def state_after_A_def doc_eval2
      never_def parse_paragraph_def close_section_def sanitize_def sanitize_filename_def
      slice_to_def strip_chars_def invalid_chars_def is_dot_def ensure_unique_def
      ensure_unique_loop.simps Let_def)

theorem discarded_section_name_stays_used_witness:
  "parse_loop [ustr ''Heading 3'' \<mapsto> 3] 3 never 0 [heading3 (ustr ''A'')] initial_state
     = Return (Finished state_after_A) \<and>
   titles_used state_after_A \<and>
   close_section state_after_A (int 1 - 1) = Return state_closed_A \<and>
   section_refs state_closed_A = [] \<and>
   (\<exists>k st'. 1 \<le> k \<and>
      parse_paragraph [ustr ''Heading 3'' \<mapsto> 3] 3 state_after_A 1 (heading3 (ustr ''A''))
        = Return st' \<and>
      current_section st' = Some (length (objects state_after_A)) \<and>
      safe_title (objects st' ! length (objects state_after_A))
        = numbered (sanitize (para_text (heading3 (ustr ''A'')))) k \<and>
      numbered (sanitize (para_text (heading3 (ustr ''A'')))) k |\<notin>| used_titles state_after_A \<and>
      (\<forall>i. 1 \<le> i \<and> i < k \<longrightarrow>
         numbered (sanitize (para_text (heading3 (ustr ''A'')))) i |\<in>| used_titles state_after_A))"
proof -
  note w = discarded_section_name_stays_used [where hl = "[ustr ''Heading 3'' \<mapsto> 3]"
      and t = 3 and flag = never and ?idx0.0 = 0 and ps = "[heading3 (ustr ''A'')]"
      and ?st0.0 = initial_state and st = state_after_A and r = 0
      and para = "heading3 (ustr ''A'')" and idx = 1 and ?st1.0 = state_closed_A]
  have t0: "titles_used initial_state" by (simp add: titles_used_def initial_state_def)
  have p1: "titles_used state_after_A"
    using w [THEN conjunct1] t0 parse_loop_heading_A by simp
  have c: "close_section state_after_A (int 1 - 1) = Return state_closed_A"
    by (simp add: close_section_def state_after_A_def state_closed_A_def)
  have s: "sanitize (para_text (heading3 (ustr ''A''))) = safe_title (objects state_after_A ! 0)"
    by (simp add: heading3_def state_after_A_def sanitize_A)
  have g: "get_heading_level [ustr ''Heading 3'' \<mapsto> 3] (heading3 (ustr ''A'')) = Some 3"
    "strip (para_text (heading3 (ustr ''A''))) \<noteq> []" "0 < length (objects state_after_A)"
    by (simp_all add: doc_eval2 state_after_A_def)
  have p2: "\<exists>k st'. 1 \<le> k \<and>
      parse_paragraph [ustr ''Heading 3'' \<mapsto> 3] 3 state_after_A 1 (heading3 (ustr ''A''))
        = Return st' \<and>
      current_section st' = Some (length (objects state_after_A)) \<and>
      safe_title (objects st' ! length (objects state_after_A))
        = numbered (sanitize (para_text (heading3 (ustr ''A'')))) k \<and>
      numbered (sanitize (para_text (heading3 (ustr ''A'')))) k |\<notin>| used_titles state_after_A \<and>
      (\<forall>i. 1 \<le> i \<and> i < k \<longrightarrow>
         numbered (sanitize (para_text (heading3 (ustr ''A'')))) i |\<in>| used_titles state_after_A)"
    by (rule mp [OF w [THEN conjunct2]]) (intro conjI p1 g s c)
  have r: "section_refs state_closed_A = []" by (simp add: state_closed_A_def)
  from parse_loop_heading_A p1 c r p2 show ?thesis by (intro conjI)
qed

text \<open>
  A section \<open>A_1\<close> with text, then two headings \<open>A\<close> in a row: the first \<open>A\<close> is
  discarded, and the section of the second \<open>A\<close> is named \<open>A_2\<close>, not \<open>A_1\<close>.
\<close>

theorem later_section_not_always_base_1:
  "(case parse_sections never 3 (new_splitter doc_A1_A_A) of
      Return sp' \<Rightarrow> map (\<lambda>s. (title s, safe_title s)) (sections sp')
    | Raise e \<Rightarrow> []
    | Never_returns \<Rightarrow> [])
   = [(ustr ''A_1'', ustr ''A_1''), (ustr ''A'', ustr ''A_2'')]"
  by (simp add: doc_A1_A_A_def doc_eval2 never_def emit_def parse_sections_def
      clean_document_def parse_paragraph_def close_section_def remove_paragraph_def
      sanitize_def sanitize_filename_def slice_to_def strip_chars_def invalid_chars_def
      is_dot_def ensure_unique_def ensure_unique_loop.simps numbered_def rsplit_dot_def
      str_nat.simps Let_def)

end
